theory Spec2Isabelle
  imports Complex_Main "HOL-Library.Log_Nat"
begin

section \<open>Priority task queue: data model\<close>

text \<open>
  The scheduler of \<^verbatim>\<open>createTaskQueue\<close> (exercise "Priority Task Queue"). In the state
  of the scheduler the numbers are integers (\<open>int\<close>): the priorities, the millisecond
  readings of \<^verbatim>\<open>Date.now()\<close>, the two configuration numbers, the running counter; the
  three non-finite results that the score can take when \<^verbatim>\<open>agingMs\<close> is \<open>0\<close> are written
  out in \<open>jsnum\<close>.

  JavaScript computes on IEEE-754 binary64 numbers. The function \<^verbatim>\<open>score\<close> is therefore
  given twice: \<open>score_double\<close> follows the source operation by operation on doubles, for
  every finite priority, window and time stamp, fractional ones included; \<open>score\<close> is its
  value on the integers of the state. The two agree on all integers of magnitude up to
  \<open>2^52\<close> (lemma \<open>score_double_int\<close>).
\<close>

datatype jsnum = Fin int | PosInf | NaN

text \<open>The comparison \<^verbatim>\<open>a < b\<close> of JavaScript on these values.\<close>

fun js_lt :: "jsnum \<Rightarrow> jsnum \<Rightarrow> bool" where
  "js_lt (Fin a) (Fin b) = (a < b)"
| "js_lt (Fin a) PosInf = True"
| "js_lt _ _ = False"

text \<open>\<^verbatim>\<open>const Priority = Object.freeze({ high: 0, normal: 1, low: 2 })\<close>\<close>

definition Priority_high :: int where "Priority_high = 0"
definition Priority_normal :: int where "Priority_normal = 1"
definition Priority_low :: int where "Priority_low = 2"

text \<open>
  A work unit is opaque code of the caller: what a callable one returns, and when, is
  chosen by the environment. A value that is not a function makes \<^verbatim>\<open>item.run()\<close>
  throw a TypeError. The reason \<open>CancelError\<close> is the error object that \<^verbatim>\<open>cancel\<close>
  creates (\<^verbatim>\<open>err.name = "CancelError"\<close>); whatever a work unit throws or rejects with
  is a \<open>WorkFailure\<close>, a different object even if it carries the same name.

  A promise is pending until one of its resolving functions is called for the first time;
  that call fulfils it, rejects it, or (called with another promise or thenable) makes it
  follow that one: it is then still unsettled, but further calls of \<^verbatim>\<open>resolve\<close> and
  \<^verbatim>\<open>reject\<close> are without effect (\<open>Following\<close>).
\<close>

datatype workunit = Callable | NotCallable

datatype result = Returned string | Failed string

datatype reason = CancelError | TypeError | WorkFailure string

datatype pstate = PPending | Following | Fulfilled string | Rejected reason

text \<open>
  Each entry of the queue: \<^verbatim>\<open>{ id, priority, enqueuedAt, run, resolve, reject, canceled }\<close>.
  The entry is a shared mutable object: \<^verbatim>\<open>cancel\<close> writes \<^verbatim>\<open>item.canceled\<close> through
  its closure, also after the entry has left the array. So the fields that never change are
  kept by value, and the mutable parts (the flag \<^verbatim>\<open>canceled\<close> and the promise behind
  \<^verbatim>\<open>resolve\<close>/\<^verbatim>\<open>reject\<close>) live in stores indexed by the entry's unique id.
\<close>

record item =
  id' :: nat
  priority :: int
  enqueuedAt :: int
  run :: workunit

text \<open>
  Where a task is in the promise chain that \<^verbatim>\<open>pump\<close> builds for it:
  \<^verbatim>\<open>Promise.resolve().then(() => item.run()).then(item.resolve, item.reject).finally(...)\<close>.
  Each \<^verbatim>\<open>then\<close> runs as a microtask of its own.
\<close>

datatype stage =
    NotCreated
  | Queued
  | Dropped
  | Dispatched workunit
  | Invoked workunit
  | Resolved
  | Done

text \<open>
  The closure variables of \<^verbatim>\<open>createTaskQueue\<close> (\<open>concurrency\<close>, \<open>agingMs\<close>,
  \<open>running\<close>, \<open>idSeq\<close>, \<open>q\<close>), the two stores, and the stage of every task's chain.
  The field \<open>invoked\<close> is an observation that the source does not keep: the ids of the
  tasks whose work unit has been called, in the order of the calls.

  The work unit is called as a method, \<^verbatim>\<open>item.run()\<close>, so it receives the entry as
  \<^verbatim>\<open>this\<close>: from then on the caller's code holds \<^verbatim>\<open>this.resolve\<close>,
  \<^verbatim>\<open>this.reject\<close> and the field \<^verbatim>\<open>this.canceled\<close>. The field \<open>exposed\<close> records
  which entries have escaped in this way.
\<close>

record state =
  concurrency :: int
  agingMs :: int
  running :: int
  idSeq :: nat
  q :: "item list"
  canceled :: "nat \<Rightarrow> bool"
  promise :: "nat \<Rightarrow> pstate"
  stage :: "nat \<Rightarrow> stage"
  invoked :: "nat list"
  exposed :: "nat \<Rightarrow> bool"

text \<open>
  The \<open>k\<close>-th reading of \<^verbatim>\<open>Date.now()\<close> during one synchronous run of the scheduler.
\<close>

type_synonym clock = "nat \<Rightarrow> int"

record options =
  opt_concurrency :: "int option"
  opt_agingMs :: "int option"

section \<open>Double-precision numbers\<close>

text \<open>
  A value of the number type: a finite binary64 number, given by the rational number it
  denotes, or \<open>Infinity\<close>, \<open>-Infinity\<close>, \<open>NaN\<close>. The sign of a zero is not kept: the score
  cannot observe it unless the window itself is \<open>-0\<close>.
\<close>

datatype dnum = DFin rat | DPosInf | DNegInf | DNaN

text \<open>The integers and non-finite values of the state, as values of the number type.\<close>

fun dnum_of :: "jsnum \<Rightarrow> dnum" where
  "dnum_of (Fin n) = DFin (of_int n)"
| "dnum_of PosInf = DPosInf"
| "dnum_of NaN = DNaN"

text \<open>\<open>2^k\<close> for an integer \<open>k\<close>.\<close>

definition pow2 :: "int \<Rightarrow> rat" where
  "pow2 k = (if 0 \<le> k then 2 ^ nat k else 1 / 2 ^ nat (- k))"

text \<open>
  The binary exponent of \<open>x > 0\<close>: the integer \<open>e\<close> with \<open>2^e \<le> x < 2^(e+1)\<close>
  (lemma \<open>expo_bounds\<close>), computed from the bit length of an integer part.
\<close>

definition expo :: "rat \<Rightarrow> int" where
  "expo x =
     (if 1 \<le> x then bitlen \<lfloor>x\<rfloor> - 1
      else (let f = bitlen \<lfloor>1 / x\<rfloor> - 1 in if x = pow2 (- f) then - f else - f - 1))"

text \<open>The nearest integer, a tie going to the even one.\<close>

definition rne :: "rat \<Rightarrow> int" where
  "rne y =
     (let f = \<lfloor>y\<rfloor>; r = y - of_int f
      in if r < 1 / 2 then f else if 1 / 2 < r then f + 1 else if even f then f else f + 1)"

text \<open>
  The binary64 result of an operation whose exact result is \<open>x\<close> (round to nearest, ties
  to even): the significand has 53 bits, so \<open>x\<close> is rounded to a multiple of
  \<open>2^(e - 52)\<close>, where \<open>e\<close> is its exponent, and at least \<open>-1022\<close> (below \<open>2^(-1022)\<close> the
  numbers are subnormal, multiples of \<open>2^(-1074)\<close>); a rounded magnitude of \<open>2^1024\<close> or more
  is an overflow to an infinity.
\<close>

definition fl :: "rat \<Rightarrow> dnum" where
  "fl x =
     (if x = 0 then DFin 0
      else
        (let a = \<bar>x\<bar>;
             e = max (expo a) (- 1022);
             u = pow2 (e - 52);
             m = rne (a / u);
             r = of_int m * u
         in if pow2 1024 \<le> r then (if 0 < x then DPosInf else DNegInf)
            else DFin (if 0 < x then r else - r)))"

text \<open>
  \<^verbatim>\<open>w / a\<close> for a finite divisor \<open>a\<close>: division by zero gives an infinity, or \<open>NaN\<close> for
  \<open>0 / 0\<close>.
\<close>

definition ddiv :: "dnum \<Rightarrow> rat \<Rightarrow> dnum" where
  "ddiv w a =
     (case w of
        DFin x \<Rightarrow>
          (if a = 0 then (if 0 < x then DPosInf else if x < 0 then DNegInf else DNaN)
           else fl (x / a))
      | DPosInf \<Rightarrow> (if 0 \<le> a then DPosInf else DNegInf)
      | DNegInf \<Rightarrow> (if 0 \<le> a then DNegInf else DPosInf)
      | DNaN \<Rightarrow> DNaN)"

text \<open>\<^verbatim>\<open>Math.floor\<close>: the floor of a double is a double.\<close>

definition dfloor :: "dnum \<Rightarrow> dnum" where
  "dfloor d = (case d of DFin x \<Rightarrow> DFin (of_int \<lfloor>x\<rfloor>) | _ \<Rightarrow> d)"

text \<open>\<^verbatim>\<open>p - b\<close> for a finite \<open>p\<close>.\<close>

definition dsub :: "rat \<Rightarrow> dnum \<Rightarrow> dnum" where
  "dsub p b =
     (case b of
        DFin y \<Rightarrow> fl (p - y)
      | DPosInf \<Rightarrow> DNegInf
      | DNegInf \<Rightarrow> DPosInf
      | DNaN \<Rightarrow> DNaN)"

text \<open>\<^verbatim>\<open>Math.max(0, d)\<close>, which is \<open>NaN\<close> when \<open>d\<close> is.\<close>

definition dmax0 :: "dnum \<Rightarrow> dnum" where
  "dmax0 d =
     (case d of
        DFin x \<Rightarrow> DFin (max 0 x)
      | DPosInf \<Rightarrow> DPosInf
      | DNegInf \<Rightarrow> DFin 0
      | DNaN \<Rightarrow> DNaN)"

section \<open>The operations\<close>

text \<open>
  \<^verbatim>\<open>function createTaskQueue({ concurrency = 2, agingMs = 200 } = {})\<close>: an omitted option
  (\<open>None\<close>) takes its default; nothing is validated.
\<close>

definition createTaskQueue :: "options \<Rightarrow> state" where
  "createTaskQueue opts =
     \<lparr> concurrency = (case opt_concurrency opts of None \<Rightarrow> 2 | Some c \<Rightarrow> c),
       agingMs = (case opt_agingMs opts of None \<Rightarrow> 200 | Some a \<Rightarrow> a),
       running = 0,
       idSeq = 1,
       q = [],
       canceled = (\<lambda>_. False),
       promise = (\<lambda>_. PPending),
       stage = (\<lambda>_. NotCreated),
       invoked = [],
       exposed = (\<lambda>_. False) \<rparr>"

text \<open>
  \<^verbatim>\<open>function score(item, now)\<close>, on doubles:
  \<^verbatim>\<open>waited = now - item.enqueuedAt\<close>, \<^verbatim>\<open>boost = Math.floor(waited / agingMs)\<close>,
  \<^verbatim>\<open>Math.max(0, item.priority - boost)\<close>. The arguments are the finite doubles
  \<^verbatim>\<open>agingMs\<close>, \<^verbatim>\<open>item.priority\<close>, \<^verbatim>\<open>now\<close> and \<^verbatim>\<open>item.enqueuedAt\<close>; each of the
  three arithmetic operations rounds its exact result.
\<close>

definition score_double :: "rat \<Rightarrow> rat \<Rightarrow> rat \<Rightarrow> rat \<Rightarrow> dnum" where
  "score_double aging prio now enq =
     (let waited = fl (now - enq);
          boost = dfloor (ddiv waited aging)
      in dmax0 (dsub prio boost))"

text \<open>
  The same function on the integers of the state, where no operation rounds (lemma
  \<open>score_double_int\<close>: for integers of magnitude up to \<open>2^52\<close> this is the value of
  \<open>score_double\<close>). \<^verbatim>\<open>waited / agingMs\<close> followed by \<^verbatim>\<open>Math.floor\<close> is floor division
  for a divisor that is not \<open>0\<close>; for \<open>0\<close> the quotient is \<open>Infinity\<close>, \<open>NaN\<close> or
  \<open>-Infinity\<close>, and \<^verbatim>\<open>Math.max(0, priority - boost)\<close> is then \<open>0\<close>, \<open>NaN\<close> or
  \<open>Infinity\<close>.
\<close>

definition score :: "int \<Rightarrow> item \<Rightarrow> int \<Rightarrow> jsnum" where
  "score aging it now =
     (let waited = now - enqueuedAt it in
      if aging = 0 then
        (if 0 < waited then Fin 0 else if waited = 0 then NaN else PosInf)
      else
        (let boost = waited div aging in Fin (max 0 (priority it - boost))))"

text \<open>The \<^verbatim>\<open>for\<close> loop of \<^verbatim>\<open>pickNextIndex\<close>, from index \<open>i\<close> on.\<close>

function pick_loop :: "int \<Rightarrow> int \<Rightarrow> item list \<Rightarrow> nat \<Rightarrow> nat \<Rightarrow> jsnum \<Rightarrow> nat" where
  "pick_loop aging now xs i bestIdx bestScore =
     (if i < length xs then
        (let s = score aging (xs ! i) now in
         if js_lt s bestScore then pick_loop aging now xs (i + 1) i s
         else pick_loop aging now xs (i + 1) bestIdx bestScore)
      else bestIdx)"
  by pat_completeness auto
termination
  by (relation "measure (\<lambda>(aging, now, xs, i, bestIdx, bestScore). length xs - i)") auto

declare pick_loop.simps [simp del]

text \<open>\<^verbatim>\<open>pickNextIndex\<close>; \<open>None\<close> is the result \<open>-1\<close>.\<close>

definition pickNextIndex :: "int \<Rightarrow> int \<Rightarrow> item list \<Rightarrow> nat option" where
  "pickNextIndex aging now xs =
     (if length xs = 0 then None
      else Some (pick_loop aging now xs 1 0 (score aging (xs ! 0) now)))"

text \<open>\<^verbatim>\<open>q.splice(idx, 1)\<close>: the array without the element at \<open>idx\<close>.\<close>

definition splice1 :: "nat \<Rightarrow> 'a list \<Rightarrow> 'a list" where
  "splice1 idx xs = take idx xs @ drop (Suc idx) xs"

lemma pick_loop_bound:
  "bestIdx < length xs \<Longrightarrow> pick_loop aging now xs i bestIdx bestScore < length xs"
proof (induction aging now xs i bestIdx bestScore rule: pick_loop.induct)
  case (1 aging now xs i bestIdx bestScore)
  show ?case
  proof (cases "i < length xs")
    case True
    with 1 show ?thesis
      by (subst pick_loop.simps) (simp add: Let_def)
  next
    case False
    with 1 show ?thesis
      by (subst pick_loop.simps) simp
  qed
qed

lemma pickNextIndex_bound:
  "pickNextIndex aging now xs = Some idx \<Longrightarrow> idx < length xs"
  by (auto simp: pickNextIndex_def pick_loop_bound split: if_splits)

lemma length_splice1: "idx < length xs \<Longrightarrow> length (splice1 idx xs) < length xs"
  by (simp add: splice1_def)

text \<open>
  \<^verbatim>\<open>pump\<close>: the \<open>k\<close>-th iteration of a run reads the clock at \<open>k\<close>. A canceled entry is
  removed and skipped (\<^verbatim>\<open>continue\<close>); any other entry takes a slot, and the first job
  of its promise chain is queued.
\<close>

function pump :: "clock \<Rightarrow> nat \<Rightarrow> state \<Rightarrow> state" where
  "pump clk k s =
     (if running s < concurrency s then
        (case pickNextIndex (agingMs s) (clk k) (q s) of
           None \<Rightarrow> s
         | Some idx \<Rightarrow>
             (let it = q s ! idx;
                  s1 = s\<lparr>q := splice1 idx (q s)\<rparr>
              in if canceled s1 (id' it)
                 then pump clk (Suc k) (s1\<lparr>stage := (stage s1)(id' it := Dropped)\<rparr>)
                 else pump clk (Suc k)
                        (s1\<lparr>running := running s1 + 1,
                            stage := (stage s1)(id' it := Dispatched (run it))\<rparr>)))
      else s)"
  by pat_completeness auto
termination
  by (relation "measure (\<lambda>(clk, k, s). length (q s))")
     (auto dest!: pickNextIndex_bound simp: length_splice1)

declare pump.simps [simp del]

text \<open>The promise's \<^verbatim>\<open>resolve\<close> and \<^verbatim>\<open>reject\<close>: without effect on a settled promise.\<close>

definition resolve :: "nat \<Rightarrow> string \<Rightarrow> state \<Rightarrow> state" where
  "resolve i v s =
     (case promise s i of
        PPending \<Rightarrow> s\<lparr>promise := (promise s)(i := Fulfilled v)\<rparr>
      | _ \<Rightarrow> s)"

definition reject :: "nat \<Rightarrow> reason \<Rightarrow> state \<Rightarrow> state" where
  "reject i r s =
     (case promise s i of
        PPending \<Rightarrow> s\<lparr>promise := (promise s)(i := Rejected r)\<rparr>
      | _ \<Rightarrow> s)"

text \<open>
  \<^verbatim>\<open>enqueue(run, { priority = Priority.normal } = {})\<close>: reads the clock for
  \<^verbatim>\<open>enqueuedAt\<close>, pushes the entry and pumps. The handle returned is the id (the promise
  and \<^verbatim>\<open>cancel\<close> are reached through it).
\<close>

definition enqueue :: "workunit \<Rightarrow> int option \<Rightarrow> clock \<Rightarrow> state \<Rightarrow> nat \<times> state" where
  "enqueue r prio clk s =
     (let i = idSeq s;
          it = \<lparr> id' = i,
                 priority = (case prio of None \<Rightarrow> Priority_normal | Some p \<Rightarrow> p),
                 enqueuedAt = clk 0,
                 run = r \<rparr>;
          s1 = s\<lparr> idSeq := idSeq s + 1,
                  canceled := (canceled s)(i := False),
                  promise := (promise s)(i := PPending),
                  stage := (stage s)(i := Queued),
                  q := q s @ [it] \<rparr>
      in (i, pump clk 1 s1))"

text \<open>
  \<^verbatim>\<open>cancel = () => { item.canceled = true; ...; reject(err); }\<close> with
  \<^verbatim>\<open>err.name = "CancelError"\<close>.
\<close>

definition cancel :: "nat \<Rightarrow> state \<Rightarrow> state" where
  "cancel i s = reject i CancelError (s\<lparr>canceled := (canceled s)(i := True)\<rparr>)"

text \<open>\<^verbatim>\<open>stats: () => ({ queued: q.length, running })\<close>\<close>

definition stats :: "state \<Rightarrow> nat \<times> int" where
  "stats s = (length (q s), running s)"

section \<open>The event loop\<close>

text \<open>
  JavaScript runs one job at a time, so a history of the scheduler is a sequence of these
  steps: a call of \<^verbatim>\<open>enqueue\<close>, a call of a task's \<^verbatim>\<open>cancel\<close>, and the three
  microtasks of a dispatched task's chain. \<open>SettleJob\<close> carries the outcome of the work
  unit, which the environment chooses.

  The remaining steps are what the caller's code can do with an entry it has received
  as \<^verbatim>\<open>this\<close>, at any moment from the call of the work unit on:
  \<open>UnitResolve\<close> is \<^verbatim>\<open>this.resolve(v)\<close> with a plain value, \<open>UnitFollow\<close> is
  \<^verbatim>\<open>this.resolve(p)\<close> with a promise or thenable \<open>p\<close>, \<open>FollowSettle\<close> is the
  outcome of that \<open>p\<close>, \<open>UnitReject\<close> is \<^verbatim>\<open>this.reject(x)\<close>, and
  \<open>UnitSetCanceled\<close> is the assignment \<^verbatim>\<open>this.canceled = b\<close>. (Assignments to the
  other fields of a dispatched entry are never read again.)

  A step that cannot occur in the state (a chain job of a task that is not at that stage,
  the handle of a task not yet created, \<^verbatim>\<open>this\<close> of an entry that has not escaped)
  leaves the state as it is.
\<close>

datatype event =
    Enqueue workunit "int option" clock
  | Cancel nat
  | RunJob nat
  | SettleJob nat result
  | FinallyJob nat clock
  | UnitResolve nat string
  | UnitReject nat string
  | UnitFollow nat
  | FollowSettle nat result
  | UnitSetCanceled nat bool

fun step :: "state \<Rightarrow> event \<Rightarrow> state" where
  "step s (Enqueue r prio clk) = snd (enqueue r prio clk s)"
| "step s (Cancel i) = (if 1 \<le> i \<and> i < idSeq s then cancel i s else s)"
| "step s (RunJob i) =
     (case stage s i of
        Dispatched w \<Rightarrow>
          s\<lparr>stage := (stage s)(i := Invoked w), invoked := invoked s @ [i],
            exposed := (exposed s)(i := (w = Callable))\<rparr>
      | _ \<Rightarrow> s)"
| "step s (SettleJob i res) =
     (case stage s i of
        Invoked w \<Rightarrow>
          (let s1 = s\<lparr>stage := (stage s)(i := Resolved)\<rparr> in
           case w of
             NotCallable \<Rightarrow> reject i TypeError s1
           | Callable \<Rightarrow>
               (case res of
                  Returned v \<Rightarrow> resolve i v s1
                | Failed e \<Rightarrow> reject i (WorkFailure e) s1))
      | _ \<Rightarrow> s)"
| "step s (FinallyJob i clk) =
     (case stage s i of
        Resolved \<Rightarrow> pump clk 0 (s\<lparr>running := running s - 1, stage := (stage s)(i := Done)\<rparr>)
      | _ \<Rightarrow> s)"
| "step s (UnitResolve i v) = (if exposed s i then resolve i v s else s)"
| "step s (UnitReject i x) = (if exposed s i then reject i (WorkFailure x) s else s)"
| "step s (UnitFollow i) =
     (if exposed s i then
        (case promise s i of
           PPending \<Rightarrow> s\<lparr>promise := (promise s)(i := Following)\<rparr>
         | _ \<Rightarrow> s)
      else s)"
| "step s (FollowSettle i res) =
     (case promise s i of
        Following \<Rightarrow>
          s\<lparr>promise := (promise s)(i := (case res of Returned v \<Rightarrow> Fulfilled v
                                              | Failed x \<Rightarrow> Rejected (WorkFailure x)))\<rparr>
      | _ \<Rightarrow> s)"
| "step s (UnitSetCanceled i b) =
     (if exposed s i then s\<lparr>canceled := (canceled s)(i := b)\<rparr> else s)"

definition exec :: "state \<Rightarrow> event list \<Rightarrow> state" where
  "exec s es = foldl step s es"

section \<open>Observations and invariants\<close>

text \<open>
  A task holds a slot from its dispatch until its \<^verbatim>\<open>finally\<close> job has run; its work
  unit has been called once its first job has run.
\<close>

fun is_inflight :: "stage \<Rightarrow> bool" where
  "is_inflight (Dispatched w) = True"
| "is_inflight (Invoked w) = True"
| "is_inflight Resolved = True"
| "is_inflight _ = False"

fun was_invoked :: "stage \<Rightarrow> bool" where
  "was_invoked (Invoked w) = True"
| "was_invoked Resolved = True"
| "was_invoked Done = True"
| "was_invoked _ = False"

text \<open>The steps by which the caller's code acts on an entry that has escaped.\<close>

fun unit_event :: "event \<Rightarrow> bool" where
  "unit_event (UnitResolve i v) = True"
| "unit_event (UnitReject i x) = True"
| "unit_event (UnitFollow i) = True"
| "unit_event (FollowSettle i res) = True"
| "unit_event (UnitSetCanceled i b) = True"
| "unit_event _ = False"

text \<open>The calls by which the caller's code resolves the promise of entry \<open>i\<close> itself.\<close>

fun unit_call :: "nat \<Rightarrow> event \<Rightarrow> bool" where
  "unit_call i (UnitResolve j v) = (j = i)"
| "unit_call i (UnitReject j x) = (j = i)"
| "unit_call i (UnitFollow j) = (j = i)"
| "unit_call i _ = False"

text \<open>
  The queue and the stages agree: the entries of the array are exactly the tasks at stage
  \<open>Queued\<close>, with ids that have been handed out, ascending in the array; a work unit
  that has been called belongs to a task that was dispatched.
\<close>

definition queue_inv :: "state \<Rightarrow> bool" where
  "queue_inv s \<longleftrightarrow>
     1 \<le> idSeq s
     \<and> (\<forall>it\<in>set (q s). 1 \<le> id' it \<and> id' it < idSeq s \<and> stage s (id' it) = Queued)
     \<and> sorted_wrt (<) (map id' (q s))
     \<and> (\<forall>i. stage s i = Queued \<longrightarrow> i \<in> id' ` set (q s))
     \<and> (\<forall>i. stage s i \<noteq> NotCreated \<longrightarrow> 1 \<le> i \<and> i < idSeq s)
     \<and> (\<forall>i\<in>set (invoked s). was_invoked (stage s i))"

text \<open>The number of tasks that hold a slot, and the counter that must equal it.\<close>

definition inflight_count :: "state \<Rightarrow> nat" where
  "inflight_count s = length (filter (\<lambda>i. is_inflight (stage s i)) [0..<idSeq s])"

definition slots_inv :: "state \<Rightarrow> bool" where
  "slots_inv s \<longleftrightarrow> queue_inv s \<and> running s = int (card {i. is_inflight (stage s i)})"

text \<open>
  The promise against the stage and the flag. An entry escapes only when its work unit
  is called. As long as it has not escaped, its promise is pending or rejected by
  \<^verbatim>\<open>cancel\<close> before the work unit's outcome has been delivered, and its flag
  \<^verbatim>\<open>canceled\<close> is set exactly when \<^verbatim>\<open>cancel\<close> was called on it. Once the outcome has
  been delivered the promise is no longer pending.
\<close>

fun settled :: "pstate \<Rightarrow> bool" where
  "settled (Fulfilled v) = True"
| "settled (Rejected r) = True"
| "settled _ = False"

fun work_settled :: "stage \<Rightarrow> bool" where
  "work_settled Resolved = True"
| "work_settled Done = True"
| "work_settled _ = False"

definition promise_inv :: "state \<Rightarrow> bool" where
  "promise_inv s \<longleftrightarrow>
     (\<forall>i. \<not> exposed s i \<and> promise s i = Rejected CancelError \<longrightarrow> canceled s i)
     \<and> (\<forall>i. \<not> exposed s i \<and> canceled s i \<longrightarrow> promise s i \<noteq> PPending)
     \<and> (\<forall>i. \<not> exposed s i \<and> \<not> work_settled (stage s i)
            \<longrightarrow> promise s i = PPending \<or> promise s i = Rejected CancelError)
     \<and> (\<forall>i. stage s i = Dropped \<longrightarrow> canceled s i)
     \<and> (\<forall>i. work_settled (stage s i) \<longrightarrow> promise s i \<noteq> PPending)
     \<and> (\<forall>i. stage s i = NotCreated \<longrightarrow> promise s i = PPending \<and> \<not> canceled s i)
     \<and> (\<forall>i. 1 \<le> i \<and> i < idSeq s \<longrightarrow> stage s i \<noteq> NotCreated)
     \<and> (\<forall>i. exposed s i \<longrightarrow> was_invoked (stage s i) \<and> i \<in> set (invoked s))
     \<and> (\<forall>i. promise s i = Following \<longrightarrow> exposed s i)"

definition sched_inv :: "state \<Rightarrow> bool" where
  "sched_inv s \<longleftrightarrow> slots_inv s \<and> promise_inv s"

text \<open>A task that was canceled before its dispatch: it can only wait or be dropped.\<close>

definition canceled_waiting :: "nat \<Rightarrow> state \<Rightarrow> bool" where
  "canceled_waiting i s \<longleftrightarrow>
     canceled s i \<and> 1 \<le> i \<and> i < idSeq s \<and> (stage s i = Queued \<or> stage s i = Dropped)
     \<and> i \<notin> set (invoked s) \<and> \<not> exposed s i \<and> promise s i = Rejected CancelError"

section \<open>The aging score\<close>

subsection \<open>Powers of two and the exponent\<close>

lemma pow2_powi: "pow2 k = 2 powi k"
  by (simp add: pow2_def power_int_def power_inverse inverse_eq_divide power_one_over)

lemma pow2_pos [simp]: "0 < pow2 k"
  by (simp add: pow2_powi)

lemma pow2_nonzero [simp]: "pow2 k \<noteq> 0"
  by (simp add: pow2_powi)

lemma pow2_add: "pow2 (a + b) = pow2 a * pow2 b"
  by (simp add: pow2_powi power_int_add)

lemma pow2_mono: "a \<le> b \<Longrightarrow> pow2 a \<le> pow2 b"
  by (simp add: pow2_powi power_int_increasing)

lemma pow2_strict_mono: "a < b \<Longrightarrow> pow2 a < pow2 b"
  by (simp add: pow2_powi power_int_strict_increasing)

lemma pow2_less_imp: "pow2 a < pow2 b \<Longrightarrow> a < b"
  using pow2_mono [of b a] by (cases "a < b") simp_all

lemma pow2_nat: "0 \<le> k \<Longrightarrow> pow2 k = 2 ^ nat k"
  by (simp add: pow2_def)

lemma pow2_Suc: "pow2 (k + 1) = 2 * pow2 k"
  using pow2_add [of k 1] by (simp add: pow2_def)

lemma expo_bounds:
  assumes "0 < x"
  shows "pow2 (expo x) \<le> x \<and> x < pow2 (expo x + 1)"
proof (cases "1 \<le> x")
  case True
  let ?n = "\<lfloor>x\<rfloor>"
  have n: "0 < ?n"
    using True by simp
  have b: "2 ^ nat (bitlen ?n - 1) \<le> ?n" "?n < 2 ^ nat (bitlen ?n)"
    using bitlen_bounds [OF n] by simp_all
  have ge: "1 \<le> bitlen ?n"
    using n by (simp add: bitlen_alt_def)
  have "(of_int (2 ^ nat (bitlen ?n - 1)) :: rat) \<le> of_int ?n"
    using b(1) by (simp only: of_int_le_iff)
  also have "\<dots> \<le> x"
    by simp
  finally have lo: "pow2 (bitlen ?n - 1) \<le> x"
    using ge by (simp add: pow2_nat)
  have "?n + 1 \<le> 2 ^ nat (bitlen ?n)"
    using b(2) by simp
  then have "(of_int (?n + 1) :: rat) \<le> of_int (2 ^ nat (bitlen ?n))"
    by (simp only: of_int_le_iff)
  moreover have "x < of_int (?n + 1)"
    by linarith
  ultimately have hi: "x < pow2 (bitlen ?n)"
    using ge by (simp add: pow2_nat)
  show ?thesis
    using True lo hi by (simp add: expo_def)
next
  case False
  let ?y = "1 / x"
  let ?m = "\<lfloor>?y\<rfloor>"
  let ?f = "bitlen ?m - 1"
  have y1: "1 < ?y"
    using False assms by simp
  then have m: "0 < ?m"
    by simp
  have b: "2 ^ nat (bitlen ?m - 1) \<le> ?m" "?m < 2 ^ nat (bitlen ?m)"
    using bitlen_bounds [OF m] by simp_all
  have ge: "1 \<le> bitlen ?m"
    using m by (simp add: bitlen_alt_def)
  have "(of_int (2 ^ nat (bitlen ?m - 1)) :: rat) \<le> of_int ?m"
    using b(1) by (simp only: of_int_le_iff)
  also have "\<dots> \<le> ?y"
    by simp
  finally have lo: "pow2 ?f \<le> ?y"
    using ge by (simp add: pow2_nat)
  have "?m + 1 \<le> 2 ^ nat (bitlen ?m)"
    using b(2) by simp
  then have "(of_int (?m + 1) :: rat) \<le> of_int (2 ^ nat (bitlen ?m))"
    by (simp only: of_int_le_iff)
  moreover have "?y < of_int (?m + 1)"
    by linarith
  ultimately have "?y < pow2 (bitlen ?m)"
    using ge by (simp add: pow2_nat)
  then have hi: "?y < pow2 (?f + 1)"
    by simp
  have inv: "pow2 (- k) = 1 / pow2 k" for k
    using pow2_add [of k "- k"] by (simp add: pow2_def field_simps)
  have xle: "x \<le> pow2 (- ?f)"
    using lo assms unfolding inv by (simp add: field_simps)
  have xgt: "pow2 (- ?f - 1) < x"
  proof -
    have eq: "pow2 (- ?f - 1) = 1 / pow2 (?f + 1)"
      using inv [of "?f + 1"] by (simp add: algebra_simps)
    have "1 < pow2 (?f + 1) * x"
      using hi assms by (simp add: pos_divide_less_eq)
    then have "1 / pow2 (?f + 1) < x"
      by (simp add: pos_divide_less_eq mult.commute)
    then show ?thesis
      unfolding eq .
  qed
  show ?thesis
  proof (cases "x = pow2 (- ?f)")
    case True
    have "pow2 (- ?f) < pow2 (- ?f + 1)"
      by (rule pow2_strict_mono) simp
    then show ?thesis
      using True False by (simp add: expo_def Let_def)
  next
    case ne: False
    have "x < pow2 (- ?f)"
      using xle ne by simp
    then have "x < pow2 (- ?f - 1 + 1)"
      by simp
    then show ?thesis
      using ne False xgt by (simp add: expo_def Let_def)
  qed
qed

subsection \<open>Rounding\<close>

lemma rne_error: "\<bar>of_int (rne y) - y\<bar> \<le> 1 / 2"
proof -
  have "of_int \<lfloor>y\<rfloor> \<le> y" "y < of_int \<lfloor>y\<rfloor> + 1"
    by linarith+
  then show ?thesis
    by (auto simp add: rne_def Let_def abs_le_iff)
qed

lemma rne_of_int [simp]: "rne (of_int k) = k"
  by (simp add: rne_def)

lemma rne_nonneg: "0 \<le> y \<Longrightarrow> 0 \<le> rne y"
proof -
  assume "0 \<le> y"
  then have "0 \<le> \<lfloor>y\<rfloor>"
    by simp
  then show ?thesis
    by (auto simp add: rne_def Let_def)
qed

lemma pow2_numeral: "pow2 53 = 2 ^ 53" "pow2 54 = 2 ^ 54" "pow2 0 = 1" "pow2 1 = 2"
  by (simp_all add: pow2_def)

lemma fl_pos:
  assumes "0 < x"
  shows "fl x = (if pow2 1024 \<le> of_int (rne (x / pow2 (max (expo x) (- 1022) - 52)))
                                 * pow2 (max (expo x) (- 1022) - 52)
                 then DPosInf
                 else DFin (of_int (rne (x / pow2 (max (expo x) (- 1022) - 52)))
                            * pow2 (max (expo x) (- 1022) - 52)))"
  using assms by (simp add: fl_def Let_def)

lemma fl_neg:
  assumes "x < 0"
  shows "fl x = (if pow2 1024 \<le> of_int (rne (- x / pow2 (max (expo (- x)) (- 1022) - 52)))
                                 * pow2 (max (expo (- x)) (- 1022) - 52)
                 then DNegInf
                 else DFin (- (of_int (rne (- x / pow2 (max (expo (- x)) (- 1022) - 52)))
                               * pow2 (max (expo (- x)) (- 1022) - 52))))"
  using assms by (simp add: fl_def Let_def abs_if)

lemma fl_neg_max0:
  assumes "x < 0"
  shows "dmax0 (fl x) = DFin 0"
proof -
  let ?u = "pow2 (max (expo (- x)) (- 1022) - 52)"
  have "0 \<le> - x / ?u"
    using assms by (intro divide_nonneg_pos) simp_all
  then have "0 \<le> rne (- x / ?u)"
    by (rule rne_nonneg)
  then have "0 \<le> (of_int (rne (- x / ?u)) :: rat) * ?u"
    by (simp add: less_imp_le)
  then show ?thesis
    using assms by (simp add: fl_neg dmax0_def)
qed

text \<open>In the range of the normal numbers up to \<open>2^53\<close>: the exponent, and no overflow.\<close>

lemma expo_range:
  assumes "pow2 (- 1022) \<le> x" and "x \<le> 2 ^ 53"
  shows "- 1022 \<le> expo x" and "expo x \<le> 53"
proof -
  have pos: "0 < x"
    using assms(1) pow2_pos [of "- 1022"] by linarith
  have b: "pow2 (expo x) \<le> x" "x < pow2 (expo x + 1)"
    using expo_bounds [OF pos] by simp_all
  have "pow2 (- 1022) < pow2 (expo x + 1)"
    using assms(1) b(2) by linarith
  then have "- 1022 < expo x + 1"
    by (rule pow2_less_imp)
  then show "- 1022 \<le> expo x"
    by simp
  have "pow2 (expo x) < pow2 54"
    using b(1) assms(2) by (simp add: pow2_numeral)
  then have "expo x < 54"
    by (rule pow2_less_imp)
  then show "expo x \<le> 53"
    by simp
qed

lemma fl_error:
  assumes "pow2 (- 1022) \<le> x" and "x \<le> 2 ^ 53"
  shows "\<exists>r. fl x = DFin r \<and> \<bar>r - x\<bar> \<le> x / 2 ^ 53"
proof -
  let ?e = "expo x"
  let ?u = "pow2 (?e - 52)"
  let ?r = "of_int (rne (x / ?u)) * ?u"
  have pos: "0 < x"
    using assms(1) pow2_pos [of "- 1022"] by linarith
  have rng: "- 1022 \<le> ?e" "?e \<le> 53"
    using assms by (rule expo_range)+
  have b: "pow2 ?e \<le> x"
    using expo_bounds [OF pos] by simp
  have u2: "?u = 2 * pow2 (?e - 53)"
    using pow2_Suc [of "?e - 53"] by simp
  have A: "\<bar>of_int (rne (x / ?u)) - x / ?u\<bar> \<le> 1 / 2"
    by (rule rne_error)
  have B: "\<bar>of_int (rne (x / ?u)) - x / ?u\<bar> * ?u = \<bar>?r - x\<bar>"
  proof -
    have "\<bar>of_int (rne (x / ?u)) - x / ?u\<bar> * ?u = \<bar>(of_int (rne (x / ?u)) - x / ?u) * ?u\<bar>"
      by (simp add: abs_mult less_imp_le)
    also have "(of_int (rne (x / ?u)) - x / ?u) * ?u = ?r - x"
      by (simp add: left_diff_distrib)
    finally show ?thesis .
  qed
  have "\<bar>of_int (rne (x / ?u)) - x / ?u\<bar> * ?u \<le> 1 / 2 * ?u"
    using A by (rule mult_right_mono) (simp add: less_imp_le)
  then have "\<bar>?r - x\<bar> \<le> 1 / 2 * ?u"
    unfolding B .
  moreover have "1 / 2 * ?u = pow2 (?e - 53)"
    using u2 by simp
  ultimately have err: "\<bar>?r - x\<bar> \<le> pow2 (?e - 53)"
    by (simp only:)
  have "pow2 ?e = pow2 (?e - 53) * pow2 53"
    using pow2_add [of "?e - 53" 53] by simp
  then have "pow2 (?e - 53) = pow2 ?e / 2 ^ 53"
    by (simp add: pow2_numeral)
  also have "\<dots> \<le> x / 2 ^ 53"
    using b by (simp add: divide_right_mono)
  finally have rel: "pow2 (?e - 53) \<le> x / 2 ^ 53" .
  have "pow2 (?e - 53) \<le> pow2 0"
    using rng(2) by (intro pow2_mono) simp
  then have "?r \<le> x + 1"
    using err by (simp add: pow2_numeral abs_le_iff)
  then have "?r \<le> 2 ^ 53 + 1"
    using assms(2) by linarith
  also have "(2 ^ 53 + 1 :: rat) < 2 ^ 54"
    by simp
  also have "(2 ^ 54 :: rat) = pow2 54"
    by (simp add: pow2_numeral)
  also have "pow2 54 < pow2 1024"
    by (rule pow2_strict_mono) simp
  finally have "\<not> pow2 1024 \<le> ?r"
    by simp
  then have "fl x = DFin ?r"
    using pos rng(1) by (simp add: fl_pos max_def)
  then show ?thesis
    using err rel by auto
qed

lemma fl_nat_exact:
  assumes "0 < n" and "n \<le> 2 ^ 53"
  shows "fl (of_int n) = DFin (of_int n)"
proof -
  let ?x = "of_int n :: rat"
  let ?e = "expo ?x"
  let ?u = "pow2 (?e - 52)"
  have pos: "0 < ?x"
    using assms(1) by simp
  have lo: "pow2 (- 1022) \<le> ?x"
  proof -
    have "pow2 (- 1022) \<le> pow2 0"
      by (rule pow2_mono) simp
    also have "\<dots> \<le> ?x"
      using assms(1) by (simp add: pow2_numeral)
    finally show ?thesis .
  qed
  have hi: "?x \<le> 2 ^ 53"
  proof -
    have "?x \<le> of_int (2 ^ 53)"
      using assms(2) by (simp only: of_int_le_iff)
    then show ?thesis by simp
  qed
  have rng: "- 1022 \<le> ?e" "?e \<le> 53"
    using lo hi by (rule expo_range)+
  have b: "pow2 ?e \<le> ?x" "?x < pow2 (?e + 1)"
    using expo_bounds [OF pos] by simp_all
  have "pow2 0 < pow2 (?e + 1)"
    using b(2) assms(1) by (simp add: pow2_numeral)
  then have e0: "0 \<le> ?e"
    using pow2_less_imp [of 0 "?e + 1"] by simp
  have "\<exists>k::int. ?x / ?u = of_int k"
  proof (cases "?e \<le> 52")
    case True
    have "pow2 (52 - ?e) * ?u = pow2 0"
      using pow2_add [of "52 - ?e" "?e - 52"] by simp
    then have "?x * pow2 (52 - ?e) * ?u = ?x"
      by (simp add: pow2_numeral mult.assoc)
    then have "?x / ?u = ?x * pow2 (52 - ?e)"
      by (simp add: divide_eq_eq)
    also have "\<dots> = of_int (n * 2 ^ nat (52 - ?e))"
      using True by (simp add: pow2_nat)
    finally show ?thesis by blast
  next
    case False
    then have e: "?e = 53"
      using rng(2) by simp
    then have "?x = 2 ^ 53"
      using b(1) hi by (simp add: pow2_numeral)
    then have "?x / ?u = of_int (2 ^ 52)"
      using e by (simp add: pow2_numeral)
    then show ?thesis by blast
  qed
  then obtain k :: int where k: "?x / ?u = of_int k" ..
  have "rne (?x / ?u) = k"
    unfolding k by simp
  then have "of_int (rne (?x / ?u)) * ?u = ?x / ?u * ?u"
    using k by simp
  then have "of_int (rne (?x / ?u)) * ?u = ?x"
    by simp
  moreover have "\<exists>r. fl ?x = DFin r"
    using fl_error [OF lo hi] by blast
  ultimately show ?thesis
    using pos rng(1) by (auto simp add: fl_pos max_def split: if_splits)
qed

lemma fl_int_exact:
  assumes "\<bar>n\<bar> \<le> 2 ^ 53"
  shows "fl (of_int n) = DFin (of_int n)"
proof -
  consider "n = 0" | "0 < n" | "n < 0" by linarith
  then show ?thesis
  proof cases
    case 1
    then show ?thesis by (simp add: fl_def)
  next
    case 2
    then show ?thesis
      using assms by (intro fl_nat_exact) simp_all
  next
    case 3
    then have "fl (of_int (- n)) = DFin (of_int (- n))"
      using assms by (intro fl_nat_exact) simp_all
    moreover have "fl (of_int n) = (case fl (- of_int n) of DFin r \<Rightarrow> DFin (- r)
                                    | DPosInf \<Rightarrow> DNegInf | d \<Rightarrow> d)"
      using 3 by (simp add: fl_def Let_def abs_if)
    ultimately show ?thesis
      by simp
  qed
qed

lemma fl_error_abs:
  assumes "pow2 (- 1022) \<le> \<bar>x\<bar>" and "\<bar>x\<bar> \<le> 2 ^ 53"
  shows "\<exists>r. fl x = DFin r \<and> \<bar>r - x\<bar> \<le> \<bar>x\<bar> / 2 ^ 53"
proof (cases "0 < x")
  case True
  then show ?thesis
    using fl_error [of x] assms by simp
next
  case False
  have "x \<noteq> 0"
  proof
    assume "x = 0"
    with assms(1) have "pow2 (- 1022) \<le> 0"
      by simp
    then show False
      using pow2_pos [of "- 1022"] by linarith
  qed
  with False have neg: "x < 0"
    by simp
  obtain r where r: "fl (- x) = DFin r" "\<bar>r - (- x)\<bar> \<le> (- x) / 2 ^ 53"
    using fl_error [of "- x"] assms neg by auto
  have "fl x = DFin (- r)"
    using r(1) neg by (simp add: fl_pos fl_neg split: if_splits)
  moreover have "\<bar>- r - x\<bar> = \<bar>r - (- x)\<bar>"
    by (simp add: abs_minus_commute)
  ultimately show ?thesis
    using r(2) neg by simp
qed

subsection \<open>The floor of a rounded quotient of integers\<close>

lemma frac_bounds:
  fixes w a :: int
  assumes "a \<noteq> 0" and "\<not> a dvd w"
  shows "1 / of_int \<bar>a\<bar> \<le> (of_int w / of_int a :: rat) - of_int (w div a)"
    and "(of_int w / of_int a :: rat) - of_int (w div a) \<le> 1 - 1 / of_int \<bar>a\<bar>"
proof -
  let ?m = "w mod a"
  let ?A = "of_int \<bar>a\<bar> :: rat"
  let ?M = "of_int \<bar>?m\<bar> :: rat"
  have "(of_int w :: rat) = of_int (a * (w div a) + ?m)"
    by simp
  then have "(of_int w :: rat) = of_int a * of_int (w div a) + of_int ?m"
    by (simp only: of_int_add of_int_mult)
  then have f: "(of_int w / of_int a :: rat) - of_int (w div a) = of_int ?m / of_int a"
    using assms(1) by (simp add: field_simps)
  have m0: "?m \<noteq> 0"
    using assms(2) by (simp add: dvd_eq_mod_eq_0)
  have ma: "of_int ?m / (of_int a :: rat) = ?M / ?A"
  proof (cases "0 < a")
    case True
    then have "0 \<le> ?m"
      by simp
    then show ?thesis
      using True by simp
  next
    case False
    then have a: "a < 0"
      using assms(1) by simp
    then have "?m \<le> 0"
      by simp
    then have "\<bar>?m\<bar> = - ?m" "\<bar>a\<bar> = - a"
      using a by simp_all
    then show ?thesis
      by simp
  qed
  have A: "0 < ?A"
    using assms(1) by simp
  have "1 \<le> \<bar>?m\<bar>"
    using m0 by simp
  then have b1: "1 \<le> ?M"
    by (simp only: of_int_1_le_iff)
  have "\<bar>?m\<bar> \<le> \<bar>a\<bar> - 1"
    using abs_mod_less [OF assms(1), of w] by simp
  then have "?M \<le> of_int (\<bar>a\<bar> - 1)"
    by (simp only: of_int_le_iff)
  then have b2: "?M \<le> ?A - 1"
    by simp
  have "1 / ?A \<le> ?M / ?A"
    using b1 A by (simp add: divide_right_mono)
  then show "1 / ?A \<le> (of_int w / of_int a :: rat) - of_int (w div a)"
    unfolding f ma .
  have "?M / ?A \<le> (?A - 1) / ?A"
    using b2 A by (simp add: divide_right_mono)
  also have "(?A - 1) / ?A = 1 - 1 / ?A"
    using A by (simp add: field_simps)
  finally show "(of_int w / of_int a :: rat) - of_int (w div a) \<le> 1 - 1 / ?A"
    unfolding f ma .
qed

lemma abs_quot_le:
  fixes w a :: int
  assumes "a \<noteq> 0"
  shows "\<bar>(of_int w / of_int a :: rat)\<bar> \<le> of_int \<bar>w\<bar>"
proof -
  have "1 \<le> \<bar>a\<bar>"
    using assms by simp
  then have A: "(1 :: rat) \<le> of_int \<bar>a\<bar>"
    by (simp only: of_int_1_le_iff)
  have "\<bar>(of_int w / of_int a :: rat)\<bar> = of_int \<bar>w\<bar> / of_int \<bar>a\<bar>"
    by simp
  also have "\<dots> \<le> of_int \<bar>w\<bar> / 1"
    using A by (intro divide_left_mono) simp_all
  finally show ?thesis
    by simp
qed

lemma abs_div_le:
  fixes w a :: int
  assumes "a \<noteq> 0"
  shows "\<bar>w div a\<bar> \<le> \<bar>w\<bar>"
proof -
  let ?x = "of_int w / of_int a :: rat"
  have q: "w div a = \<lfloor>?x\<rfloor>"
    by (simp add: floor_divide_of_int_eq)
  have b: "- of_int \<bar>w\<bar> \<le> ?x" "?x \<le> of_int \<bar>w\<bar>"
    using abs_quot_le [OF assms, of w] by linarith+
  have "of_int (- \<bar>w\<bar>) \<le> ?x"
    using b(1) by simp
  then have "- \<bar>w\<bar> \<le> \<lfloor>?x\<rfloor>"
    by (simp only: le_floor_iff)
  moreover have "\<lfloor>?x\<rfloor> \<le> \<bar>w\<bar>"
    using b(2) by (simp add: floor_le_iff) 
  ultimately show ?thesis
    unfolding q by simp
qed

lemma fl_div_floor:
  fixes w a :: int
  assumes "\<bar>w\<bar> < 2 ^ 53" and "a \<noteq> 0" and "\<bar>a\<bar> \<le> 2 ^ 53"
  shows "\<exists>r. fl (of_int w / of_int a) = DFin r \<and> \<lfloor>r\<rfloor> = w div a"
proof (cases "a dvd w")
  case True
  then have "(of_int w / of_int a :: rat) = of_int (w div a)"
    by (simp add: of_int_div)
  moreover have "\<bar>w div a\<bar> \<le> 2 ^ 53"
    using abs_div_le [OF assms(2), of w] assms(1) by simp
  ultimately show ?thesis
    using fl_int_exact [of "w div a"] by simp
next
  case False
  let ?x = "of_int w / of_int a :: rat"
  let ?A = "of_int \<bar>a\<bar> :: rat"
  have A: "0 < ?A"
    using assms(2) by simp
  have w0: "w \<noteq> 0"
    using False by auto
  have fr: "1 / ?A \<le> ?x - of_int (w div a)" "?x - of_int (w div a) \<le> 1 - 1 / ?A"
    using frac_bounds [OF assms(2) False] by simp_all
  have W: "(of_int \<bar>w\<bar> :: rat) < 2 ^ 53"
  proof -
    have "(of_int \<bar>w\<bar> :: rat) < of_int (2 ^ 53)"
      using assms(1) by (simp only: of_int_less_iff)
    then show ?thesis by simp
  qed
  have A53: "?A \<le> 2 ^ 53"
  proof -
    have "?A \<le> of_int (2 ^ 53)"
      using assms(3) by (simp only: of_int_le_iff)
    then show ?thesis by simp
  qed
  have ax: "\<bar>?x\<bar> = of_int \<bar>w\<bar> / ?A"
    by simp
  have "1 \<le> \<bar>w\<bar>"
    using w0 by simp
  then have W1: "(1 :: rat) \<le> of_int \<bar>w\<bar>"
    by (simp only: of_int_1_le_iff)
  have lo: "pow2 (- 1022) \<le> \<bar>?x\<bar>"
  proof -
    have "pow2 (- 1022) \<le> pow2 (- 53)"
      by (rule pow2_mono) simp
    also have "pow2 (- 53) = 1 / 2 ^ 53"
      by (simp add: pow2_def)
    also have "\<dots> \<le> 1 / ?A"
      using A A53 by (intro divide_left_mono) simp_all
    also have "\<dots> \<le> of_int \<bar>w\<bar> / ?A"
      using W1 A by (simp add: divide_right_mono)
    finally show ?thesis
      unfolding ax .
  qed
  have hi: "\<bar>?x\<bar> \<le> 2 ^ 53"
    using abs_quot_le [OF assms(2), of w] W by linarith
  obtain r where r: "fl ?x = DFin r" "\<bar>r - ?x\<bar> \<le> \<bar>?x\<bar> / 2 ^ 53"
    using fl_error_abs [OF lo hi] by blast
  have "\<bar>?x\<bar> / 2 ^ 53 = (of_int \<bar>w\<bar> / 2 ^ 53) / ?A"
    unfolding ax by simp
  also have "\<dots> < 1 / ?A"
    using W A by (intro divide_strict_right_mono) simp_all
  finally have "\<bar>r - ?x\<bar> < 1 / ?A"
    using r(2) by linarith
  then have "of_int (w div a) \<le> r" "r < of_int (w div a) + 1"
    using fr by (simp_all add: abs_less_iff)
  then have "\<lfloor>r\<rfloor> = w div a"
    by (rule floor_unique)
  with r(1) show ?thesis
    by blast
qed

subsection \<open>The score on integers\<close>

lemma dsub_max0_int:
  fixes p q :: int
  assumes "\<bar>p - q\<bar> \<le> 2 ^ 53 \<or> p - q < 0"
  shows "dmax0 (dsub (of_int p) (DFin (of_int q))) = DFin (of_int (max 0 (p - q)))"
proof (cases "p - q < 0")
  case True
  then have "(of_int p - of_int q :: rat) < 0"
    by simp
  then have "dmax0 (fl (of_int p - of_int q)) = DFin 0"
    by (rule fl_neg_max0)
  then show ?thesis
    using True by (simp add: dsub_def max_def)
next
  case False
  with assms have "\<bar>p - q\<bar> \<le> 2 ^ 53"
    by simp
  then have "fl (of_int (p - q)) = DFin (of_int (p - q))"
    by (rule fl_int_exact)
  then show ?thesis
    using False by (simp add: dsub_def dmax0_def max_def)
qed


lemma score_double_int:
  assumes "\<bar>aging\<bar> \<le> 2 ^ 52" and "\<bar>priority it\<bar> \<le> 2 ^ 52"
    and "\<bar>now - enqueuedAt it\<bar> \<le> 2 ^ 52"
  shows "score_double (of_int aging) (of_int (priority it)) (of_int now)
           (of_int (enqueuedAt it)) = dnum_of (score aging it now)"
proof -
  let ?w = "now - enqueuedAt it"
  let ?p = "priority it"
  have "fl (of_int ?w) = DFin (of_int ?w)"
    using assms(3) by (intro fl_int_exact) simp
  then have 1: "fl (of_int now - of_int (enqueuedAt it)) = DFin (of_int ?w)"
    by simp
  show ?thesis
  proof (cases "aging = 0")
    case True
    then show ?thesis
      by (simp add: score_double_def score_def Let_def 1 ddiv_def dfloor_def dsub_def
          dmax0_def)
  next
    case False
    let ?q = "?w div aging"
    obtain r where r: "fl (of_int ?w / of_int aging) = DFin r" "\<lfloor>r\<rfloor> = ?q"
      using fl_div_floor [of ?w aging] assms(1,3) False by auto
    have 2: "dfloor (ddiv (DFin (of_int ?w)) (of_int aging)) = DFin (of_int ?q)"
      using r False by (simp add: ddiv_def dfloor_def)
    have "\<bar>?q\<bar> \<le> \<bar>?w\<bar>"
      using False by (rule abs_div_le)
    then have "\<bar>?q\<bar> \<le> 2 ^ 52"
      using assms(3) by (rule order_trans)
    moreover have "\<bar>?p - ?q\<bar> \<le> \<bar>?p\<bar> + \<bar>?q\<bar>"
      by (rule abs_triangle_ineq4)
    ultimately have "\<bar>?p - ?q\<bar> \<le> 2 ^ 52 + 2 ^ 52"
      using assms(2) by (simp only: add_mono order_trans)
    then have "\<bar>?p - ?q\<bar> \<le> 2 ^ 53"
      by simp
    then have "\<bar>?p - ?q\<bar> \<le> 2 ^ 53 \<or> ?p - ?q < 0"
      by (rule disjI1)
    then have 3: "dmax0 (dsub (of_int ?p) (DFin (of_int ?q)))
                    = DFin (of_int (max 0 (?p - ?q)))"
      by (rule dsub_max0_int)
    have "score_double (of_int aging) (of_int ?p) (of_int now) (of_int (enqueuedAt it))
            = DFin (of_int (max 0 (?p - ?q)))"
      by (simp only: score_double_def Let_def 1 2 3)
    then show ?thesis
      using False by (simp add: score_def Let_def)
  qed
qed

subsection \<open>Evaluation of a rounding\<close>








subsection \<open>The score of the state\<close>

lemma score_Fin:
  "aging \<noteq> 0 \<Longrightarrow>
   score aging it now = Fin (max 0 (priority it - (now - enqueuedAt it) div aging))"
  by (simp add: score_def Let_def)

lemma score_mono_wait:
  assumes "0 < aging" and "priority a = priority b"
    and "now1 - enqueuedAt a \<le> now2 - enqueuedAt b"
  shows "\<not> js_lt (score aging a now1) (score aging b now2)"
proof -
  have "(now1 - enqueuedAt a) div aging \<le> (now2 - enqueuedAt b) div aging"
    using assms(1,3) by (simp add: zdiv_mono1)
  then show ?thesis
    using assms(1,2) by (simp add: score_Fin)
qed




text \<open>
  C9. For a fixed priority and an aging window \<open>a > 0\<close> the score does not increase as
  the waited duration grows, and it is never below 0.
\<close>

theorem score_antimono:
  assumes "0 < a" and "priority it1 = priority it2"
    and "now1 - enqueuedAt it1 \<le> now2 - enqueuedAt it2"
  shows "\<exists>s1 s2. score a it1 now1 = Fin s1 \<and> score a it2 now2 = Fin s2
                 \<and> s2 \<le> s1 \<and> 0 \<le> s2"
proof -
  have "(now1 - enqueuedAt it1) div a \<le> (now2 - enqueuedAt it2) div a"
    using assms(1,3) by (simp add: zdiv_mono1)
  moreover have "a \<noteq> 0"
    using assms(1) by simp
  ultimately show ?thesis
    using assms(2) by (simp add: score_Fin)
qed

theorem score_antimono_witness:
  "(0::int) < 200
   \<and> (\<exists>s1 s2. score 200 \<lparr>id' = 1, priority = 2, enqueuedAt = 0, run = Callable\<rparr> 150 = Fin s1
              \<and> score 200 \<lparr>id' = 1, priority = 2, enqueuedAt = 0, run = Callable\<rparr> 450 = Fin s2
              \<and> s2 \<le> s1 \<and> 0 \<le> s2)"
  using score_antimono [of 200 "\<lparr>id' = 1, priority = 2, enqueuedAt = 0, run = Callable\<rparr>"
      "\<lparr>id' = 1, priority = 2, enqueuedAt = 0, run = Callable\<rparr>" 150 450]
  by simp

section \<open>Defaults\<close>

text \<open>
  C10. \<^verbatim>\<open>createTaskQueue\<close> without options uses \<open>concurrency = 2\<close> and
  \<open>agingMs = 200\<close>. \<^verbatim>\<open>Priority.normal\<close> is 1, and \<^verbatim>\<open>enqueue\<close> without a priority
  creates the record \<open>\<lparr>id, priority = 1, enqueuedAt, run\<rparr>\<close>, appends it to the array and
  pumps; when no slot is free that record, with priority 1, is the last entry of the array
  afterwards.
\<close>

theorem defaults:
  "createTaskQueue \<lparr>opt_concurrency = None, opt_agingMs = None\<rparr>
     = createTaskQueue \<lparr>opt_concurrency = Some 2, opt_agingMs = Some 200\<rparr>
   \<and> concurrency (createTaskQueue \<lparr>opt_concurrency = None, opt_agingMs = a\<rparr>) = 2
   \<and> agingMs (createTaskQueue \<lparr>opt_concurrency = c, opt_agingMs = None\<rparr>) = 200
   \<and> Priority_normal = 1
   \<and> enqueue r None clk s = enqueue r (Some Priority_normal) clk s
   \<and> enqueue r None clk s = enqueue r (Some 1) clk s
   \<and> enqueue r None clk s
       = (idSeq s,
          pump clk 1
            (s\<lparr>idSeq := idSeq s + 1,
               canceled := (canceled s)(idSeq s := False),
               promise := (promise s)(idSeq s := PPending),
               stage := (stage s)(idSeq s := Queued),
               q := q s @ [\<lparr>id' = idSeq s, priority = 1, enqueuedAt = clk 0, run = r\<rparr>]\<rparr>))
   \<and> (\<not> running s < concurrency s \<longrightarrow>
         q (snd (enqueue r None clk s))
           = q s @ [\<lparr>id' = idSeq s, priority = 1, enqueuedAt = clk 0, run = r\<rparr>]
         \<and> map priority (q (snd (enqueue r None clk s))) = map priority (q s) @ [1]
         \<and> stage (snd (enqueue r None clk s)) (idSeq s) = Queued)"
proof -
  have a: "createTaskQueue \<lparr>opt_concurrency = None, opt_agingMs = None\<rparr>
             = createTaskQueue \<lparr>opt_concurrency = Some 2, opt_agingMs = Some 200\<rparr>
           \<and> concurrency (createTaskQueue \<lparr>opt_concurrency = None, opt_agingMs = a\<rparr>) = 2
           \<and> agingMs (createTaskQueue \<lparr>opt_concurrency = c, opt_agingMs = None\<rparr>) = 200
           \<and> Priority_normal = 1"
    by (simp add: createTaskQueue_def Priority_normal_def)
  have b: "enqueue r None clk s = enqueue r (Some Priority_normal) clk s
           \<and> enqueue r None clk s = enqueue r (Some 1) clk s"
    by (simp add: enqueue_def Priority_normal_def)
  have c: "enqueue r None clk s
       = (idSeq s,
          pump clk 1
            (s\<lparr>idSeq := idSeq s + 1,
               canceled := (canceled s)(idSeq s := False),
               promise := (promise s)(idSeq s := PPending),
               stage := (stage s)(idSeq s := Queued),
               q := q s @ [\<lparr>id' = idSeq s, priority = 1, enqueuedAt = clk 0, run = r\<rparr>]\<rparr>))"
    by (simp add: enqueue_def Priority_normal_def Let_def)
  have d: "\<not> running s < concurrency s \<longrightarrow>
         q (snd (enqueue r None clk s))
           = q s @ [\<lparr>id' = idSeq s, priority = 1, enqueuedAt = clk 0, run = r\<rparr>]
         \<and> map priority (q (snd (enqueue r None clk s))) = map priority (q s) @ [1]
         \<and> stage (snd (enqueue r None clk s)) (idSeq s) = Queued"
  proof
    assume full: "\<not> running s < concurrency s"
    let ?t = "s\<lparr>idSeq := idSeq s + 1,
               canceled := (canceled s)(idSeq s := False),
               promise := (promise s)(idSeq s := PPending),
               stage := (stage s)(idSeq s := Queued),
               q := q s @ [\<lparr>id' = idSeq s, priority = 1, enqueuedAt = clk 0, run = r\<rparr>]\<rparr>"
    have "pump clk 1 ?t = ?t"
      using full by (subst pump.simps) simp
    then have "snd (enqueue r None clk s) = ?t"
      using c by simp
    then show "q (snd (enqueue r None clk s))
           = q s @ [\<lparr>id' = idSeq s, priority = 1, enqueuedAt = clk 0, run = r\<rparr>]
         \<and> map priority (q (snd (enqueue r None clk s))) = map priority (q s) @ [1]
         \<and> stage (snd (enqueue r None clk s)) (idSeq s) = Queued"
      by simp
  qed
  show ?thesis
    using a b c d by blast
qed

theorem defaults_witness:
  "\<not> running (snd (enqueue Callable (Some 0) (\<lambda>_. 0)
                    (createTaskQueue \<lparr>opt_concurrency = Some 1, opt_agingMs = None\<rparr>)))
      < concurrency (snd (enqueue Callable (Some 0) (\<lambda>_. 0)
                    (createTaskQueue \<lparr>opt_concurrency = Some 1, opt_agingMs = None\<rparr>)))
   \<and> q (snd (enqueue NotCallable None (\<lambda>_. 7)
              (snd (enqueue Callable (Some 0) (\<lambda>_. 0)
                    (createTaskQueue \<lparr>opt_concurrency = Some 1, opt_agingMs = None\<rparr>)))))
       = [\<lparr>id' = 2, priority = 1, enqueuedAt = 7, run = NotCallable\<rparr>]"
  using defaults [where r = NotCallable and clk = "\<lambda>_. 7"
      and s = "snd (enqueue Callable (Some 0) (\<lambda>_. 0)
                 (createTaskQueue \<lparr>opt_concurrency = Some 1, opt_agingMs = None\<rparr>))"]
  by (simp add: createTaskQueue_def enqueue_def pump.simps pickNextIndex_def pick_loop.simps
        splice1_def Let_def Priority_normal_def)

section \<open>The dispatcher: queue, slots and the concurrency limit\<close>

text \<open>
  Every property of \<^verbatim>\<open>pump\<close> is proved through one rule: what holds before the loop
  and is kept by dropping a canceled entry and by dispatching an entry holds after it.
\<close>

lemma pump_rule:
  assumes init: "P s"
    and drop: "\<And>s idx. P s \<Longrightarrow> running s < concurrency s \<Longrightarrow> idx < length (q s)
          \<Longrightarrow> canceled s (id' (q s ! idx))
          \<Longrightarrow> P (s\<lparr>q := splice1 idx (q s), stage := (stage s)(id' (q s ! idx) := Dropped)\<rparr>)"
    and disp: "\<And>s idx. P s \<Longrightarrow> running s < concurrency s \<Longrightarrow> idx < length (q s)
          \<Longrightarrow> \<not> canceled s (id' (q s ! idx))
          \<Longrightarrow> P (s\<lparr>q := splice1 idx (q s), running := running s + 1,
                   stage := (stage s)(id' (q s ! idx) := Dispatched (run (q s ! idx)))\<rparr>)"
  shows "P (pump clk k s)"
  using init
proof (induction clk k s rule: pump.induct)
  case (1 clk k s)
  show ?case
  proof (cases "running s < concurrency s")
    case False
    with "1.prems" show ?thesis
      by (subst pump.simps) simp
  next
    case True
    note free = True
    show ?thesis
    proof (cases "pickNextIndex (agingMs s) (clk k) (q s)")
      case None
      with free "1.prems" show ?thesis
        by (subst pump.simps) simp
    next
      case (Some idx)
      then have idx: "idx < length (q s)"
        by (rule pickNextIndex_bound)
      show ?thesis
      proof (cases "canceled s (id' (q s ! idx))")
        case True
        have "P (s\<lparr>q := splice1 idx (q s), stage := (stage s)(id' (q s ! idx) := Dropped)\<rparr>)"
          using drop [OF "1.prems" free idx True] .
        then have "P (pump clk (Suc k)
                   (s\<lparr>q := splice1 idx (q s), stage := (stage s)(id' (q s ! idx) := Dropped)\<rparr>))"
          using "1.IH"(1) [OF free Some refl refl] True by simp
        then show ?thesis
          using free Some True by (subst pump.simps) (simp add: Let_def)
      next
        case False
        have "P (s\<lparr>q := splice1 idx (q s), running := running s + 1,
                   stage := (stage s)(id' (q s ! idx) := Dispatched (run (q s ! idx)))\<rparr>)"
          using disp [OF "1.prems" free idx False] .
        then have "P (pump clk (Suc k)
                   (s\<lparr>q := splice1 idx (q s), running := running s + 1,
                   stage := (stage s)(id' (q s ! idx) := Dispatched (run (q s ! idx)))\<rparr>))"
          using "1.IH"(2) [OF free Some refl refl] False by simp
        then show ?thesis
          using free Some False by (subst pump.simps) (simp add: Let_def)
      qed
    qed
  qed
qed

lemma splice1_decomp:
  assumes "idx < length xs"
  shows "xs = take idx xs @ xs ! idx # drop (Suc idx) xs"
  using assms by (rule id_take_nth_drop)

lemma set_splice1_subset: "set (splice1 idx xs) \<subseteq> set xs"
  unfolding splice1_def using set_take_subset [of idx xs] set_drop_subset [of "Suc idx" xs]
  by auto

lemma image_set_splice1:
  assumes "distinct (map f xs)" and "idx < length xs"
  shows "f ` set (splice1 idx xs) = f ` set xs - {f (xs ! idx)}"
proof -
  let ?a = "take idx xs" and ?b = "drop (Suc idx) xs"
  have xs: "xs = ?a @ xs ! idx # ?b"
    using assms(2) by (rule splice1_decomp)
  have "distinct (map f (?a @ xs ! idx # ?b))"
    using assms(1) xs by simp
  then have notin: "f (xs ! idx) \<notin> f ` set ?a" "f (xs ! idx) \<notin> f ` set ?b"
    by auto
  have "f ` set xs = f ` set ?a \<union> {f (xs ! idx)} \<union> f ` set ?b"
    by (subst xs) auto
  moreover have "f ` set (splice1 idx xs) = f ` set ?a \<union> f ` set ?b"
    by (auto simp: splice1_def)
  ultimately show ?thesis
    using notin by auto
qed

lemma sorted_wrt_splice1:
  assumes "sorted_wrt P xs"
  shows "sorted_wrt P (splice1 idx xs)"
proof -
  have "sorted_wrt P (take idx xs @ drop idx xs)"
    using assms by simp
  then have cross: "\<forall>x\<in>set (take idx xs). \<forall>y\<in>set (drop idx xs). P x y"
    unfolding sorted_wrt_append by blast
  have "set (drop (Suc idx) xs) \<subseteq> set (drop idx xs)"
    by (metis drop_Suc set_drop_subset tl_drop drop_drop plus_1_eq_Suc)
  with cross have "\<forall>x\<in>set (take idx xs). \<forall>y\<in>set (drop (Suc idx) xs). P x y"
    by blast
  then show ?thesis
    unfolding splice1_def sorted_wrt_append using assms by simp
qed

lemma map_splice1: "map f (splice1 idx xs) = splice1 idx (map f xs)"
  by (simp add: splice1_def take_map drop_map)

lemma queue_inv_create: "queue_inv (createTaskQueue opts)"
  by (simp add: queue_inv_def createTaskQueue_def)

lemma queue_inv_distinct: "queue_inv s \<Longrightarrow> distinct (map id' (q s))"
  unfolding queue_inv_def using strict_sorted_iff by blast

lemma queue_inv_drop:
  assumes "queue_inv s" and "idx < length (q s)"
  shows "queue_inv (s\<lparr>q := splice1 idx (q s), stage := (stage s)(id' (q s ! idx) := Dropped)\<rparr>)"
proof -
  let ?i = "id' (q s ! idx)"
  have d: "distinct (map id' (q s))"
    using assms(1) by (rule queue_inv_distinct)
  have img: "id' ` set (splice1 idx (q s)) = id' ` set (q s) - {?i}"
    using d assms(2) by (rule image_set_splice1)
  have mem: "q s ! idx \<in> set (q s)"
    using assms(2) by simp
  have sub: "set (splice1 idx (q s)) \<subseteq> set (q s)"
    by (rule set_splice1_subset)
  have a: "\<forall>it\<in>set (splice1 idx (q s)). 1 \<le> id' it \<and> id' it < idSeq s
             \<and> ((stage s)(?i := Dropped)) (id' it) = Queued"
    using assms(1) sub img unfolding queue_inv_def by auto
  have b: "sorted_wrt (<) (map id' (splice1 idx (q s)))"
    using assms(1) unfolding queue_inv_def map_splice1 by (simp add: sorted_wrt_splice1)
  have c: "\<forall>i. ((stage s)(?i := Dropped)) i = Queued \<longrightarrow> i \<in> id' ` set (splice1 idx (q s))"
    using assms(1) img unfolding queue_inv_def by auto
  have e: "\<forall>i. ((stage s)(?i := Dropped)) i \<noteq> NotCreated \<longrightarrow> 1 \<le> i \<and> i < idSeq s"
    using assms(1) mem unfolding queue_inv_def by auto
  have f: "\<forall>i\<in>set (invoked s). was_invoked (((stage s)(?i := Dropped)) i)"
    using assms(1) mem unfolding queue_inv_def by auto
  show ?thesis
    using a b c e f assms(1) by (simp add: queue_inv_def)
qed

lemma queue_inv_dispatch:
  assumes "queue_inv s" and "idx < length (q s)"
  shows "queue_inv (s\<lparr>q := splice1 idx (q s), running := r,
                      stage := (stage s)(id' (q s ! idx) := Dispatched w)\<rparr>)"
proof -
  let ?i = "id' (q s ! idx)"
  have d: "distinct (map id' (q s))"
    using assms(1) by (rule queue_inv_distinct)
  have img: "id' ` set (splice1 idx (q s)) = id' ` set (q s) - {?i}"
    using d assms(2) by (rule image_set_splice1)
  have mem: "q s ! idx \<in> set (q s)"
    using assms(2) by simp
  have sub: "set (splice1 idx (q s)) \<subseteq> set (q s)"
    by (rule set_splice1_subset)
  have a: "\<forall>it\<in>set (splice1 idx (q s)). 1 \<le> id' it \<and> id' it < idSeq s
             \<and> ((stage s)(?i := Dispatched w)) (id' it) = Queued"
    using assms(1) sub img unfolding queue_inv_def by auto
  have b: "sorted_wrt (<) (map id' (splice1 idx (q s)))"
    using assms(1) unfolding queue_inv_def map_splice1 by (simp add: sorted_wrt_splice1)
  have c: "\<forall>i. ((stage s)(?i := Dispatched w)) i = Queued \<longrightarrow> i \<in> id' ` set (splice1 idx (q s))"
    using assms(1) img unfolding queue_inv_def by auto
  have e: "\<forall>i. ((stage s)(?i := Dispatched w)) i \<noteq> NotCreated \<longrightarrow> 1 \<le> i \<and> i < idSeq s"
    using assms(1) mem unfolding queue_inv_def by auto
  have f: "\<forall>i\<in>set (invoked s). was_invoked (((stage s)(?i := Dispatched w)) i)"
    using assms(1) mem unfolding queue_inv_def by auto
  show ?thesis
    using a b c e f assms(1) by (simp add: queue_inv_def)
qed

lemma queue_inv_pump: "queue_inv s \<Longrightarrow> queue_inv (pump clk k s)"
  by (rule pump_rule [where P = queue_inv]) (simp_all add: queue_inv_drop queue_inv_dispatch)

lemma was_invoked_neq: "was_invoked st \<Longrightarrow> st \<noteq> NotCreated \<and> st \<noteq> Queued"
  by (cases st) simp_all

lemma resolve_fields [simp]:
  "concurrency (resolve i v s) = concurrency s" "agingMs (resolve i v s) = agingMs s"
  "running (resolve i v s) = running s" "idSeq (resolve i v s) = idSeq s"
  "q (resolve i v s) = q s" "canceled (resolve i v s) = canceled s"
  "stage (resolve i v s) = stage s" "invoked (resolve i v s) = invoked s"
  "exposed (resolve i v s) = exposed s"
  by (simp_all add: resolve_def split: pstate.splits)

lemma reject_fields [simp]:
  "concurrency (reject i r s) = concurrency s" "agingMs (reject i r s) = agingMs s"
  "running (reject i r s) = running s" "idSeq (reject i r s) = idSeq s"
  "q (reject i r s) = q s" "canceled (reject i r s) = canceled s"
  "stage (reject i r s) = stage s" "invoked (reject i r s) = invoked s"
  "exposed (reject i r s) = exposed s"
  by (simp_all add: reject_def split: pstate.splits)

lemma step_unit_fields:
  assumes "unit_event e"
  shows "concurrency (step s e) = concurrency s" "agingMs (step s e) = agingMs s"
    "running (step s e) = running s" "idSeq (step s e) = idSeq s" "q (step s e) = q s"
    "stage (step s e) = stage s" "invoked (step s e) = invoked s"
    "exposed (step s e) = exposed s"
  using assms by (cases e; simp split: pstate.splits)+

lemma queue_inv_settle [simp]:
  "queue_inv (resolve i v s) = queue_inv s" "queue_inv (reject i r s) = queue_inv s"
  by (simp_all add: queue_inv_def)

lemma queue_inv_push:
  assumes "queue_inv s"
  shows "queue_inv (s\<lparr>idSeq := Suc (idSeq s), canceled := cf, promise := pf,
            stage := (stage s)(idSeq s := Queued),
            q := q s @ [\<lparr>id' = idSeq s, priority = p, enqueuedAt = t, run = r\<rparr>]\<rparr>)"
proof -
  let ?n = "idSeq s"
  have a: "\<forall>it\<in>set (q s). 1 \<le> id' it \<and> id' it < ?n + 1 \<and> ((stage s)(?n := Queued)) (id' it) = Queued"
    using assms unfolding queue_inv_def by (auto simp: less_Suc_eq)
  have b: "sorted_wrt (<) (map id' (q s) @ [?n])"
    using assms unfolding queue_inv_def sorted_wrt_append by auto
  have c: "\<forall>i. ((stage s)(?n := Queued)) i = Queued \<longrightarrow> i = ?n \<or> i \<in> id' ` set (q s)"
    using assms unfolding queue_inv_def by auto
  have e: "\<forall>i. ((stage s)(?n := Queued)) i \<noteq> NotCreated \<longrightarrow> 1 \<le> i \<and> i < ?n + 1"
    using assms unfolding queue_inv_def by (auto simp: less_Suc_eq)
  have "\<forall>i\<in>set (invoked s). i \<noteq> ?n"
    using assms was_invoked_neq unfolding queue_inv_def by (metis less_irrefl)
  then have f: "\<forall>i\<in>set (invoked s). was_invoked (((stage s)(?n := Queued)) i)"
    using assms unfolding queue_inv_def by auto
  show ?thesis
    using a b c e f assms by (simp add: queue_inv_def)
qed

lemma queue_inv_step: "queue_inv s \<Longrightarrow> queue_inv (step s e)"
proof (cases e)
  case (Enqueue r prio clk)
  assume "queue_inv s"
  then show ?thesis
    unfolding Enqueue by (simp add: enqueue_def Let_def queue_inv_pump queue_inv_push)
next
  case (Cancel i)
  assume "queue_inv s"
  then show ?thesis
    unfolding Cancel by (simp add: cancel_def) (simp add: queue_inv_def)
next
  case (RunJob i)
  assume inv: "queue_inv s"
  show ?thesis
  proof (cases "stage s i")
    case (Dispatched w)
    then show ?thesis
      using inv unfolding RunJob queue_inv_def by (auto simp: image_iff)
  qed (use inv RunJob in simp_all)
next
  case (SettleJob i res)
  assume inv: "queue_inv s"
  show ?thesis
  proof (cases "stage s i")
    case (Invoked w)
    have "queue_inv (s\<lparr>stage := (stage s)(i := Resolved)\<rparr>)"
      using inv Invoked unfolding queue_inv_def by (auto simp: image_iff)
    then show ?thesis
      using Invoked unfolding SettleJob
      by (simp add: Let_def split: workunit.splits result.splits)
  qed (use inv SettleJob in simp_all)
next
  case (FinallyJob i clk)
  assume inv: "queue_inv s"
  show ?thesis
  proof (cases "stage s i")
    case Resolved
    have "queue_inv (s\<lparr>running := running s - 1, stage := (stage s)(i := Done)\<rparr>)"
      using inv Resolved unfolding queue_inv_def by (auto simp: image_iff)
    then show ?thesis
      using Resolved unfolding FinallyJob by (simp add: queue_inv_pump)
  qed (use inv FinallyJob in simp_all)
qed (simp_all add: queue_inv_def step_unit_fields del: step.simps)

lemma queue_inv_exec: "queue_inv s \<Longrightarrow> queue_inv (exec s es)"
  unfolding exec_def by (induction es arbitrary: s) (simp_all add: queue_inv_step)

lemma pump_fields [simp]:
  "concurrency (pump clk k s) = concurrency s" "agingMs (pump clk k s) = agingMs s"
  "idSeq (pump clk k s) = idSeq s" "canceled (pump clk k s) = canceled s"
  "promise (pump clk k s) = promise s" "invoked (pump clk k s) = invoked s"
  "exposed (pump clk k s) = exposed s"
proof -
  show "concurrency (pump clk k s) = concurrency s"
    by (rule pump_rule [where P = "\<lambda>t. concurrency t = concurrency s"]) simp_all
  show "agingMs (pump clk k s) = agingMs s"
    by (rule pump_rule [where P = "\<lambda>t. agingMs t = agingMs s"]) simp_all
  show "idSeq (pump clk k s) = idSeq s"
    by (rule pump_rule [where P = "\<lambda>t. idSeq t = idSeq s"]) simp_all
  show "canceled (pump clk k s) = canceled s"
    by (rule pump_rule [where P = "\<lambda>t. canceled t = canceled s"]) simp_all
  show "promise (pump clk k s) = promise s"
    by (rule pump_rule [where P = "\<lambda>t. promise t = promise s"]) simp_all
  show "invoked (pump clk k s) = invoked s"
    by (rule pump_rule [where P = "\<lambda>t. invoked t = invoked s"]) simp_all
  show "exposed (pump clk k s) = exposed s"
    by (rule pump_rule [where P = "\<lambda>t. exposed t = exposed s"]) simp_all
qed

lemma step_config [simp]:
  "concurrency (step s e) = concurrency s" "agingMs (step s e) = agingMs s"
  by (cases e; simp add: enqueue_def cancel_def Let_def
        split: stage.splits workunit.splits result.splits pstate.splits)+

lemma exec_config [simp]:
  "concurrency (exec s es) = concurrency s" "agingMs (exec s es) = agingMs s"
  unfolding exec_def by (induction es arbitrary: s) simp_all

lemma pump_running_le:
  "running s \<le> concurrency s \<Longrightarrow> running (pump clk k s) \<le> concurrency s"
  by (rule pump_rule [where P = "\<lambda>t. running t \<le> concurrency s \<and> concurrency t = concurrency s",
        THEN conjunct1]) simp_all

lemma step_running_le:
  "running s \<le> concurrency s \<Longrightarrow> running (step s e) \<le> concurrency s"
proof (cases e)
  case (FinallyJob i clk)
  assume le: "running s \<le> concurrency s"
  let ?t = "s\<lparr>running := running s - 1, stage := (stage s)(i := Done)\<rparr>"
  have "running ?t \<le> concurrency ?t"
    using le by simp
  then have "running (pump clk 0 ?t) \<le> concurrency ?t"
    by (rule pump_running_le)
  then show ?thesis
    using le unfolding FinallyJob by (simp split: stage.splits)
next
  case (Enqueue r prio clk)
  assume le: "running s \<le> concurrency s"
  then show ?thesis
    unfolding Enqueue using pump_running_le [of "s\<lparr>idSeq := Suc (idSeq s),
        canceled := (canceled s)(idSeq s := False), promise := (promise s)(idSeq s := PPending),
        stage := (stage s)(idSeq s := Queued),
        q := q s @ [\<lparr>id' = idSeq s, priority = (case prio of None \<Rightarrow> Priority_normal | Some p \<Rightarrow> p),
                      enqueuedAt = clk 0, run = r\<rparr>]\<rparr>" clk 1]
    by (simp add: enqueue_def Let_def)
qed (simp_all add: cancel_def Let_def
       split: stage.splits workunit.splits result.splits pstate.splits)

lemma exec_running_le:
  "running s \<le> concurrency s \<Longrightarrow> running (exec s es) \<le> concurrency s"
proof (induction es arbitrary: s)
  case Nil
  then show ?case by (simp add: exec_def)
next
  case (Cons e es)
  have "running (step s e) \<le> concurrency (step s e)"
    using Cons.prems by (simp add: step_running_le)
  then have "running (exec (step s e) es) \<le> concurrency (step s e)"
    by (rule Cons.IH)
  then show ?case
    by (simp add: exec_def)
qed

lemma inflight_finite: "queue_inv s \<Longrightarrow> finite {i. is_inflight (stage s i)}"
proof -
  assume inv: "queue_inv s"
  have "{i. is_inflight (stage s i)} \<subseteq> {i. i < idSeq s}"
  proof
    fix i assume "i \<in> {i. is_inflight (stage s i)}"
    then have "stage s i \<noteq> NotCreated" by auto
    then show "i \<in> {i. i < idSeq s}"
      using inv unfolding queue_inv_def by blast
  qed
  then show ?thesis
    by (rule finite_subset) simp
qed

lemma inflight_count_card:
  assumes "queue_inv s"
  shows "inflight_count s = card {i. is_inflight (stage s i)}"
proof -
  have "{i. is_inflight (stage s i)} = {i. i < idSeq s \<and> is_inflight (stage s i)}"
  proof -
    have "\<And>i. is_inflight (stage s i) \<Longrightarrow> i < idSeq s"
    proof -
      fix i assume "is_inflight (stage s i)"
      then have "stage s i \<noteq> NotCreated" by auto
      then show "i < idSeq s"
        using assms unfolding queue_inv_def by blast
    qed
    then show ?thesis by blast
  qed
  moreover have "length (filter (\<lambda>i. is_inflight (stage s i)) [0..<idSeq s])
                 = card {i. i < idSeq s \<and> is_inflight (stage s i)}"
  proof -
    have "{i. i < idSeq s \<and> is_inflight (stage s ([0..<idSeq s] ! i))}
          = {i. i < idSeq s \<and> is_inflight (stage s i)}"
      by auto
    then show ?thesis
      by (simp add: length_filter_conv_card)
  qed
  ultimately show ?thesis
    by (simp add: inflight_count_def)
qed

lemma inflight_upd_same:
  "is_inflight (f i) = is_inflight st
   \<Longrightarrow> {j. is_inflight ((f(i := st)) j)} = {j. is_inflight (f j)}"
  by auto

lemma inflight_upd_in:
  "is_inflight st \<Longrightarrow> {j. is_inflight ((f(i := st)) j)} = insert i {j. is_inflight (f j)}"
  by auto

lemma inflight_upd_out:
  "\<not> is_inflight st \<Longrightarrow> {j. is_inflight ((f(i := st)) j)} = {j. is_inflight (f j)} - {i}"
  by auto

lemma slots_inv_drop:
  assumes "slots_inv s" and "idx < length (q s)"
  shows "slots_inv (s\<lparr>q := splice1 idx (q s), stage := (stage s)(id' (q s ! idx) := Dropped)\<rparr>)"
proof -
  have "stage s (id' (q s ! idx)) = Queued"
    using assms unfolding slots_inv_def queue_inv_def by simp
  then have "{j. is_inflight (((stage s)(id' (q s ! idx) := Dropped)) j)}
             = {j. is_inflight (stage s j)}"
    by (intro inflight_upd_same) simp
  then show ?thesis
    using assms by (simp add: slots_inv_def queue_inv_drop)
qed

lemma slots_inv_dispatch:
  assumes "slots_inv s" and "idx < length (q s)"
  shows "slots_inv (s\<lparr>q := splice1 idx (q s), running := running s + 1,
                      stage := (stage s)(id' (q s ! idx) := Dispatched w)\<rparr>)"
proof -
  let ?i = "id' (q s ! idx)"
  have inv: "queue_inv s"
    using assms(1) by (simp add: slots_inv_def)
  have "stage s ?i = Queued"
    using inv assms(2) unfolding queue_inv_def by simp
  then have notin: "?i \<notin> {j. is_inflight (stage s j)}"
    by simp
  have "{j. is_inflight (((stage s)(?i := Dispatched w)) j)} = insert ?i {j. is_inflight (stage s j)}"
    by (intro inflight_upd_in) simp
  then have "card {j. is_inflight (((stage s)(?i := Dispatched w)) j)}
             = Suc (card {j. is_inflight (stage s j)})"
    using notin inflight_finite [OF inv] by simp
  then show ?thesis
    using assms by (simp add: slots_inv_def queue_inv_dispatch)
qed

lemma slots_inv_pump: "slots_inv s \<Longrightarrow> slots_inv (pump clk k s)"
  by (rule pump_rule [where P = slots_inv]) (simp_all add: slots_inv_drop slots_inv_dispatch)

lemma slots_inv_settle [simp]:
  "slots_inv (resolve i v s) = slots_inv s" "slots_inv (reject i r s) = slots_inv s"
  by (simp_all add: slots_inv_def)

lemma slots_inv_push:
  assumes "slots_inv s"
  shows "slots_inv (s\<lparr>idSeq := Suc (idSeq s), canceled := cf, promise := pf,
            stage := (stage s)(idSeq s := Queued),
            q := q s @ [\<lparr>id' = idSeq s, priority = p, enqueuedAt = t, run = r\<rparr>]\<rparr>)"
proof -
  have inv: "queue_inv s"
    using assms by (simp add: slots_inv_def)
  have "stage s (idSeq s) = NotCreated"
    using inv unfolding queue_inv_def by (metis less_irrefl)
  then have "{j. is_inflight (((stage s)(idSeq s := Queued)) j)} = {j. is_inflight (stage s j)}"
    by (intro inflight_upd_same) simp
  then show ?thesis
    using assms by (simp add: slots_inv_def queue_inv_push)
qed

lemma slots_inv_release:
  assumes "slots_inv s" and "stage s i = Resolved"
  shows "slots_inv (s\<lparr>running := running s - 1, stage := (stage s)(i := Done)\<rparr>)"
proof -
  have inv: "queue_inv s"
    using assms(1) by (simp add: slots_inv_def)
  have mem: "i \<in> {j. is_inflight (stage s j)}"
    using assms(2) by simp
  have "{j. is_inflight (((stage s)(i := Done)) j)} = {j. is_inflight (stage s j)} - {i}"
    by (intro inflight_upd_out) simp
  then have "card {j. is_inflight (((stage s)(i := Done)) j)}
             = card {j. is_inflight (stage s j)} - 1"
    using mem inflight_finite [OF inv] by simp
  moreover have "1 \<le> card {j. is_inflight (stage s j)}"
    using mem inflight_finite [OF inv] by (metis One_nat_def Suc_leI card_gt_0_iff empty_iff)
  moreover have "queue_inv (s\<lparr>running := running s - 1, stage := (stage s)(i := Done)\<rparr>)"
    using inv assms(2) unfolding queue_inv_def by (auto simp: image_iff)
  ultimately show ?thesis
    using assms(1) by (simp add: slots_inv_def)
qed

lemma slots_inv_step:
  assumes "slots_inv s"
  shows "slots_inv (step s e)"
proof -
  have inv: "queue_inv s"
    using assms by (simp add: slots_inv_def)
  have inv': "queue_inv (step s e)"
    using inv by (rule queue_inv_step)
  show ?thesis
  proof (cases e)
    case (Enqueue r prio clk)
    show ?thesis
      unfolding Enqueue using assms
      by (simp add: enqueue_def Let_def slots_inv_pump slots_inv_push)
  next
    case (Cancel i)
    then show ?thesis
      using assms by (simp add: cancel_def) (simp add: slots_inv_def queue_inv_def)
  next
    case (RunJob i)
    show ?thesis
    proof (cases "stage s i")
      case (Dispatched w)
      then have "{j. is_inflight (((stage s)(i := Invoked w)) j)} = {j. is_inflight (stage s j)}"
        by (intro inflight_upd_same) simp
      then show ?thesis
        using assms inv' Dispatched unfolding RunJob by (simp add: slots_inv_def)
    qed (use assms RunJob in simp_all)
  next
    case (SettleJob i res)
    show ?thesis
    proof (cases "stage s i")
      case (Invoked w)
      then have eq: "{j. is_inflight (((stage s)(i := Resolved)) j)} = {j. is_inflight (stage s j)}"
        by (intro inflight_upd_same) simp
      have "queue_inv (s\<lparr>stage := (stage s)(i := Resolved)\<rparr>)"
        using inv' Invoked unfolding SettleJob
        by (simp add: Let_def split: workunit.splits result.splits)
      then have "slots_inv (s\<lparr>stage := (stage s)(i := Resolved)\<rparr>)"
        using assms eq by (simp add: slots_inv_def)
      then show ?thesis
        using Invoked unfolding SettleJob
        by (simp add: Let_def split: workunit.splits result.splits)
    qed (use assms SettleJob in simp_all)
  next
    case (FinallyJob i clk)
    show ?thesis
    proof (cases "stage s i")
      case Resolved
      then show ?thesis
        unfolding FinallyJob using assms by (simp add: slots_inv_pump slots_inv_release)
    qed (use assms FinallyJob in simp_all)
  qed (use assms inv' in \<open>simp_all add: slots_inv_def step_unit_fields del: step.simps\<close>)
qed

lemma slots_inv_create: "slots_inv (createTaskQueue opts)"
  by (simp add: slots_inv_def queue_inv_create) (simp add: createTaskQueue_def)

lemma slots_inv_exec: "slots_inv s \<Longrightarrow> slots_inv (exec s es)"
  unfolding exec_def by (induction es arbitrary: s) (simp_all add: slots_inv_step)

text \<open>
  C1. For a concurrency limit that is not negative, after every sequence of submissions,
  cancellations and chain jobs the counter \<^verbatim>\<open>running\<close> is at most the limit, and it is
  the number of tasks that hold a slot (dispatched, \<^verbatim>\<open>finally\<close> job not yet run).
\<close>

theorem running_bounded:
  assumes "0 \<le> concurrency (createTaskQueue opts)"
  shows "running (exec (createTaskQueue opts) es) \<le> concurrency (createTaskQueue opts)
         \<and> running (exec (createTaskQueue opts) es)
             = int (inflight_count (exec (createTaskQueue opts) es))
         \<and> int (inflight_count (exec (createTaskQueue opts) es))
             \<le> concurrency (createTaskQueue opts)"
proof -
  let ?s0 = "createTaskQueue opts"
  have "running ?s0 \<le> concurrency ?s0"
    using assms by (simp add: createTaskQueue_def)
  then have le: "running (exec ?s0 es) \<le> concurrency ?s0"
    by (rule exec_running_le)
  have "slots_inv (exec ?s0 es)"
    using slots_inv_create by (rule slots_inv_exec)
  then have "running (exec ?s0 es) = int (inflight_count (exec ?s0 es))"
    by (simp add: slots_inv_def inflight_count_card)
  with le show ?thesis
    by simp
qed

theorem running_bounded_witness:
  "0 \<le> concurrency (createTaskQueue \<lparr>opt_concurrency = Some 1, opt_agingMs = None\<rparr>)
   \<and> running (exec (createTaskQueue \<lparr>opt_concurrency = Some 1, opt_agingMs = None\<rparr>)
                 [Enqueue Callable None (\<lambda>_. 0), Enqueue Callable (Some 0) (\<lambda>_. 5)]) \<le> 1"
  using running_bounded [of "\<lparr>opt_concurrency = Some 1, opt_agingMs = None\<rparr>"
      "[Enqueue Callable None (\<lambda>_. 0), Enqueue Callable (Some 0) (\<lambda>_. 5)]"]
  by (simp add: createTaskQueue_def)

section \<open>Settlement of the promises\<close>

lemma promise_inv_create: "promise_inv (createTaskQueue opts)"
  by (simp add: promise_inv_def createTaskQueue_def)

lemma promise_inv_queued:
  assumes "promise_inv s" and "stage s i = Queued"
  shows "\<not> exposed s i" and "promise s i = PPending \<or> promise s i = Rejected CancelError"
proof -
  show ne: "\<not> exposed s i"
    using assms unfolding promise_inv_def by (metis was_invoked.simps(5))
  show "promise s i = PPending \<or> promise s i = Rejected CancelError"
    using assms ne unfolding promise_inv_def by (metis work_settled.simps(4))
qed

lemma promise_inv_settle_stage:
  assumes "promise_inv s" and "stage s i = Queued" and "st = Dropped \<longrightarrow> canceled s i"
    and "st = Dropped \<or> st = Dispatched w"
  shows "promise_inv (s\<lparr>q := xs, stage := (stage s)(i := st)\<rparr>)"
    and "promise_inv (s\<lparr>q := xs, running := r, stage := (stage s)(i := st)\<rparr>)"
proof -
  have ne: "\<not> exposed s i"
    and c: "promise s i = PPending \<or> promise s i = Rejected CancelError"
    using assms(1,2) by (rule promise_inv_queued)+
  have ns: "\<not> work_settled st" "st \<noteq> NotCreated"
    using assms(4) by auto
  show "promise_inv (s\<lparr>q := xs, stage := (stage s)(i := st)\<rparr>)"
    using assms(1,3) c ns ne unfolding promise_inv_def by simp
  show "promise_inv (s\<lparr>q := xs, running := r, stage := (stage s)(i := st)\<rparr>)"
    using assms(1,3) c ns ne unfolding promise_inv_def by simp
qed

lemma sched_inv_pump:
  assumes "sched_inv s"
  shows "sched_inv (pump clk k s)"
proof (rule pump_rule [where P = sched_inv])
  show "sched_inv s" by (rule assms)
next
  fix t idx
  assume inv: "sched_inv t" and idx: "idx < length (q t)"
    and c: "canceled t (id' (q t ! idx))"
  have "stage t (id' (q t ! idx)) = Queued"
    using inv idx unfolding sched_inv_def slots_inv_def queue_inv_def by simp
  then have "promise_inv (t\<lparr>q := splice1 idx (q t),
                 stage := (stage t)(id' (q t ! idx) := Dropped)\<rparr>)"
    using inv c by (intro promise_inv_settle_stage(1) [where w = Callable])
                   (simp_all add: sched_inv_def)
  then show "sched_inv (t\<lparr>q := splice1 idx (q t),
                 stage := (stage t)(id' (q t ! idx) := Dropped)\<rparr>)"
    using inv idx by (simp add: sched_inv_def slots_inv_drop)
next
  fix t idx
  assume inv: "sched_inv t" and idx: "idx < length (q t)"
  have "stage t (id' (q t ! idx)) = Queued"
    using inv idx unfolding sched_inv_def slots_inv_def queue_inv_def by simp
  then have "promise_inv (t\<lparr>q := splice1 idx (q t), running := running t + 1,
                 stage := (stage t)(id' (q t ! idx) := Dispatched (run (q t ! idx)))\<rparr>)"
    using inv by (intro promise_inv_settle_stage(2) [where w = "run (q t ! idx)"])
                 (simp_all add: sched_inv_def)
  then show "sched_inv (t\<lparr>q := splice1 idx (q t), running := running t + 1,
                 stage := (stage t)(id' (q t ! idx) := Dispatched (run (q t ! idx)))\<rparr>)"
    using inv idx by (simp add: sched_inv_def slots_inv_dispatch)
qed

lemma promise_inv_unit:
  assumes "promise_inv s" and "unit_event e"
  shows "promise_inv (step s e)"
proof (cases e)
  case (UnitResolve i v)
  show ?thesis
  proof (cases "exposed s i")
    case True
    then have "was_invoked (stage s i)"
      using assms(1) unfolding promise_inv_def by blast
    then show ?thesis
      using assms(1) True unfolding UnitResolve
      by (cases "promise s i") (auto simp add: promise_inv_def resolve_def)
  qed (use assms(1) UnitResolve in simp)
next
  case (UnitReject i x)
  show ?thesis
  proof (cases "exposed s i")
    case True
    then have "was_invoked (stage s i)"
      using assms(1) unfolding promise_inv_def by blast
    then show ?thesis
      using assms(1) True unfolding UnitReject
      by (cases "promise s i") (auto simp add: promise_inv_def reject_def)
  qed (use assms(1) UnitReject in simp)
next
  case (UnitFollow i)
  show ?thesis
  proof (cases "exposed s i")
    case True
    then have "was_invoked (stage s i)"
      using assms(1) unfolding promise_inv_def by blast
    then show ?thesis
      using assms(1) True unfolding UnitFollow
      by (cases "promise s i") (auto simp add: promise_inv_def)
  qed (use assms(1) UnitFollow in simp)
next
  case (FollowSettle i res)
  show ?thesis
  proof (cases "promise s i = Following")
    case True
    then have "exposed s i"
      using assms(1) unfolding promise_inv_def by blast
    then have "was_invoked (stage s i)"
      using assms(1) unfolding promise_inv_def by blast
    then show ?thesis
      using assms(1) True \<open>exposed s i\<close> unfolding FollowSettle
      by (cases res) (auto simp add: promise_inv_def)
  next
    case False
    then show ?thesis
      using assms(1) unfolding FollowSettle by (cases "promise s i") simp_all
  qed
next
  case (UnitSetCanceled i b)
  show ?thesis
  proof (cases "exposed s i")
    case True
    then have "was_invoked (stage s i)"
      using assms(1) unfolding promise_inv_def by blast
    then show ?thesis
      using assms(1) True unfolding UnitSetCanceled
      by (auto simp add: promise_inv_def)
  qed (use assms(1) UnitSetCanceled in simp)
qed (use assms(2) in simp_all)

lemma promise_inv_step:
  assumes "sched_inv s"
  shows "promise_inv (step s e)"
proof -
  have pinv: "promise_inv s" and sinv: "slots_inv s"
    using assms by (simp_all add: sched_inv_def)
  show ?thesis
  proof (cases e)
    case (Enqueue r prio clk)
    let ?t = "s\<lparr>idSeq := Suc (idSeq s), canceled := (canceled s)(idSeq s := False),
          promise := (promise s)(idSeq s := PPending), stage := (stage s)(idSeq s := Queued),
          q := q s @ [\<lparr>id' = idSeq s,
                        priority = (case prio of None \<Rightarrow> Priority_normal | Some p \<Rightarrow> p),
                        enqueuedAt = clk 0, run = r\<rparr>]\<rparr>"
    have "stage s (idSeq s) = NotCreated"
      using sinv unfolding slots_inv_def queue_inv_def by (metis less_irrefl)
    then have "\<not> exposed s (idSeq s)"
      using pinv unfolding promise_inv_def by (metis was_invoked.simps(4))
    then have "promise_inv ?t"
      using pinv unfolding promise_inv_def by (simp add: less_Suc_eq)
    moreover have "slots_inv ?t"
      using sinv by (rule slots_inv_push)
    ultimately have "sched_inv (pump clk 1 ?t)"
      by (intro sched_inv_pump) (simp add: sched_inv_def)
    then show ?thesis
      unfolding Enqueue by (simp add: enqueue_def Let_def sched_inv_def)
  next
    case (Cancel i)
    show ?thesis
      using pinv unfolding Cancel
      by (cases "promise s i") (auto simp add: promise_inv_def cancel_def reject_def)
  next
    case (RunJob i)
    show ?thesis
    proof (cases "stage s i")
      case (Dispatched w)
      then have "\<not> exposed s i"
        using pinv unfolding promise_inv_def by (metis was_invoked.simps(7))
      then show ?thesis
        using pinv Dispatched unfolding RunJob by (auto simp add: promise_inv_def)
    qed (use pinv RunJob in simp_all)
  next
    case (SettleJob i res)
    show ?thesis
    proof (cases "stage s i")
      case (Invoked w)
      then show ?thesis
        using pinv unfolding SettleJob
        by (cases w; cases res; cases "promise s i")
           (auto simp add: promise_inv_def resolve_def reject_def)
    qed (use pinv SettleJob in simp_all)
  next
    case (FinallyJob i clk)
    show ?thesis
    proof (cases "stage s i")
      case Resolved
      let ?t = "s\<lparr>running := running s - 1, stage := (stage s)(i := Done)\<rparr>"
      have "promise_inv ?t"
        using pinv Resolved by (auto simp add: promise_inv_def)
      moreover have "slots_inv ?t"
        using sinv Resolved by (rule slots_inv_release)
      ultimately have "sched_inv (pump clk 0 ?t)"
        by (intro sched_inv_pump) (simp add: sched_inv_def)
      then show ?thesis
        using Resolved unfolding FinallyJob by (simp add: sched_inv_def)
    qed (use pinv FinallyJob in simp_all)
  qed (use pinv in \<open>simp_all add: promise_inv_unit del: step.simps\<close>)
qed

lemma sched_inv_step: "sched_inv s \<Longrightarrow> sched_inv (step s e)"
  by (simp add: sched_inv_def slots_inv_step promise_inv_step)

lemma sched_inv_create: "sched_inv (createTaskQueue opts)"
  by (simp add: sched_inv_def slots_inv_create promise_inv_create)

lemma sched_inv_exec: "sched_inv s \<Longrightarrow> sched_inv (exec s es)"
  unfolding exec_def by (induction es arbitrary: s) (simp_all add: sched_inv_step)

lemma step_idSeq_mono: "idSeq s \<le> idSeq (step s e)"
  by (cases e) (simp_all add: enqueue_def cancel_def Let_def
                   split: stage.splits workunit.splits result.splits pstate.splits)

lemma settle_promise_frozen:
  "promise s i \<noteq> PPending \<Longrightarrow> promise (resolve j v s) i = promise s i"
  "promise s i \<noteq> PPending \<Longrightarrow> promise (reject j r s) i = promise s i"
  by (auto simp add: resolve_def reject_def split: pstate.splits)

lemma settled_not_pending: "settled p \<Longrightarrow> p \<noteq> PPending \<and> p \<noteq> Following"
  by (cases p) simp_all

lemma step_promise_frozen:
  assumes "settled (promise s i)" and "i < idSeq s"
  shows "promise (step s e) i = promise s i"
proof -
  have np: "promise s i \<noteq> PPending" "promise s i \<noteq> Following"
    using assms(1) by (simp_all add: settled_not_pending)
  show ?thesis
  proof (cases e)
    case (Enqueue r prio clk)
    then show ?thesis
      using assms by (simp add: enqueue_def Let_def)
  next
    case (Cancel j)
    then show ?thesis
      using np by (simp add: cancel_def settle_promise_frozen)
  next
    case (RunJob j)
    then show ?thesis
      by (simp split: stage.splits)
  next
    case (SettleJob j res)
    then show ?thesis
      using np
      by (simp add: Let_def settle_promise_frozen split: stage.splits workunit.splits result.splits)
  next
    case (FinallyJob j clk)
    then show ?thesis
      by (simp split: stage.splits)
  next
    case (UnitResolve j v)
    then show ?thesis
      using np by (simp add: settle_promise_frozen)
  next
    case (UnitReject j x)
    then show ?thesis
      using np by (simp add: settle_promise_frozen)
  next
    case (UnitFollow j)
    then show ?thesis
      using np by (cases "promise s j") auto
  next
    case (FollowSettle j res)
    then show ?thesis
      using np by (cases "promise s j") auto
  next
    case (UnitSetCanceled j b)
    then show ?thesis
      by simp
  qed
qed

lemma exec_promise_frozen:
  assumes "settled (promise s i)" and "i < idSeq s"
  shows "promise (exec s es) i = promise s i"
  using assms
proof (induction es arbitrary: s)
  case Nil
  then show ?case by (simp add: exec_def)
next
  case (Cons e es)
  have eq: "promise (step s e) i = promise s i"
    using Cons.prems by (rule step_promise_frozen)
  moreover have "i < idSeq (step s e)"
    using Cons.prems(2) step_idSeq_mono [of s e] by simp
  ultimately have "promise (exec (step s e) es) i = promise (step s e) i"
    using Cons.prems(1) by (intro Cons.IH) simp_all
  with eq show ?case
    by (simp add: exec_def)
qed

lemma sched_inv_settled_created:
  assumes "sched_inv s" and "promise s i \<noteq> PPending"
  shows "i < idSeq s"
proof -
  have "stage s i \<noteq> NotCreated"
    using assms unfolding sched_inv_def promise_inv_def by blast
  then show ?thesis
    using assms(1) unfolding sched_inv_def slots_inv_def queue_inv_def by blast
qed

lemma step_promise_change:
  assumes "sched_inv s" and "promise (step s e) i \<noteq> promise s i"
  shows "\<not> settled (promise s i)
         \<and> ((\<exists>v. e = SettleJob i (Returned v) \<and> stage s i = Invoked Callable
                  \<and> promise s i = PPending \<and> promise (step s e) i = Fulfilled v)
            \<or> (\<exists>x. e = SettleJob i (Failed x) \<and> stage s i = Invoked Callable
                  \<and> promise s i = PPending \<and> promise (step s e) i = Rejected (WorkFailure x))
            \<or> (\<exists>res. e = SettleJob i res \<and> stage s i = Invoked NotCallable
                  \<and> promise s i = PPending \<and> promise (step s e) i = Rejected TypeError)
            \<or> (e = Cancel i \<and> promise s i = PPending
                  \<and> promise (step s e) i = Rejected CancelError)
            \<or> (\<exists>v. e = UnitResolve i v \<and> exposed s i
                  \<and> promise s i = PPending \<and> promise (step s e) i = Fulfilled v)
            \<or> (\<exists>x. e = UnitReject i x \<and> exposed s i
                  \<and> promise s i = PPending \<and> promise (step s e) i = Rejected (WorkFailure x))
            \<or> (e = UnitFollow i \<and> exposed s i
                  \<and> promise s i = PPending \<and> promise (step s e) i = Following)
            \<or> (\<exists>v. e = FollowSettle i (Returned v) \<and> exposed s i
                  \<and> promise s i = Following \<and> promise (step s e) i = Fulfilled v)
            \<or> (\<exists>x. e = FollowSettle i (Failed x) \<and> exposed s i
                  \<and> promise s i = Following
                  \<and> promise (step s e) i = Rejected (WorkFailure x)))"
proof -
  have ns: "\<not> settled (promise s i)"
  proof
    assume st: "settled (promise s i)"
    then have "promise s i \<noteq> PPending"
      by (simp add: settled_not_pending)
    then have "i < idSeq s"
      using assms(1) by (intro sched_inv_settled_created)
    with st have "promise (step s e) i = promise s i"
      by (intro step_promise_frozen)
    with assms(2) show False by simp
  qed
  have fe: "promise s i = Following \<Longrightarrow> exposed s i"
    using assms(1) unfolding sched_inv_def promise_inv_def by blast
  show ?thesis
  proof (cases e)
    case (Enqueue r prio clk)
    have "promise s (idSeq s) = PPending"
      using assms(1) sched_inv_settled_created [of s "idSeq s"] by blast
    then show ?thesis
      using assms(2) unfolding Enqueue by (simp add: enqueue_def Let_def split: if_splits)
  next
    case (Cancel j)
    then show ?thesis
      using assms(2) ns
      by (cases "promise s i")
         (auto simp add: cancel_def reject_def split: if_splits pstate.splits)
  next
    case (RunJob j)
    then show ?thesis
      using assms(2) by (simp split: stage.splits)
  next
    case (SettleJob j res)
    show ?thesis
    proof (cases "stage s j")
      case (Invoked w)
      then show ?thesis
        using assms(2) ns unfolding SettleJob
        by (cases w; cases res; cases "promise s i")
           (auto simp add: Let_def resolve_def reject_def split: if_splits pstate.splits)
    qed (use assms(2) SettleJob in simp_all)
  next
    case (FinallyJob j clk)
    then show ?thesis
      using assms(2) by (simp split: stage.splits)
  next
    case (UnitResolve j v)
    then show ?thesis
      using assms(2) ns
      by (cases "promise s i")
         (auto simp add: resolve_def split: if_splits pstate.splits)
  next
    case (UnitReject j x)
    then show ?thesis
      using assms(2) ns
      by (cases "promise s i")
         (auto simp add: reject_def split: if_splits pstate.splits)
  next
    case (UnitFollow j)
    then show ?thesis
      using assms(2) ns
      by (cases "promise s i") (auto split: if_splits pstate.splits)
  next
    case (FollowSettle j res)
    then show ?thesis
      using assms(2) ns fe
      by (cases "promise s i"; cases res) (auto split: if_splits pstate.splits)
  next
    case (UnitSetCanceled j b)
    then show ?thesis
      using assms(2) by (simp split: if_splits)
  qed
qed

lemma exec_snoc: "exec s (es @ [e]) = step (exec s es) e"
  by (simp add: exec_def)

lemma three_outcomes:
  assumes "\<forall>e\<in>set es. \<not> unit_call i e"
  shows "promise (exec (createTaskQueue opts) es) i = PPending
         \<or> (\<exists>v. promise (exec (createTaskQueue opts) es) i = Fulfilled v
                \<and> SettleJob i (Returned v) \<in> set es)
         \<or> (\<exists>x. promise (exec (createTaskQueue opts) es) i = Rejected (WorkFailure x)
                \<and> SettleJob i (Failed x) \<in> set es)
         \<or> (promise (exec (createTaskQueue opts) es) i = Rejected TypeError
                \<and> (\<exists>res. SettleJob i res \<in> set es))
         \<or> (promise (exec (createTaskQueue opts) es) i = Rejected CancelError
                \<and> Cancel i \<in> set es)"
  using assms
proof (induction es rule: rev_induct)
  case Nil
  then show ?case
    by (simp add: exec_def createTaskQueue_def)
next
  case (snoc e es)
  let ?s = "exec (createTaskQueue opts) es"
  have inv: "sched_inv ?s"
    using sched_inv_create by (rule sched_inv_exec)
  have nu: "\<not> unit_call i e"
    using snoc.prems by simp
  have IH: "promise ?s i = PPending
         \<or> (\<exists>v. promise ?s i = Fulfilled v \<and> SettleJob i (Returned v) \<in> set es)
         \<or> (\<exists>x. promise ?s i = Rejected (WorkFailure x) \<and> SettleJob i (Failed x) \<in> set es)
         \<or> (promise ?s i = Rejected TypeError \<and> (\<exists>res. SettleJob i res \<in> set es))
         \<or> (promise ?s i = Rejected CancelError \<and> Cancel i \<in> set es)"
    using snoc.IH snoc.prems by simp
  show ?case
  proof (cases "promise (step ?s e) i = promise ?s i")
    case True
    then show ?thesis
      unfolding exec_snoc using IH by auto
  next
    case False
    have nf: "promise ?s i \<noteq> Following"
      using IH by auto
    show ?thesis
      unfolding exec_snoc
      using step_promise_change [OF inv False] nu nf by auto
  qed
qed

text \<open>
  C2 as the claim states it fails: the work unit is called as \<^verbatim>\<open>item.run()\<close>, with the
  entry as \<^verbatim>\<open>this\<close>, so it can settle the promise itself. A work unit that calls
  \<^verbatim>\<open>this.resolve('hijack')\<close> and then throws \<^verbatim>\<open>'boom'\<close> leaves the promise fulfilled
  with \<^verbatim>\<open>'hijack'\<close>: not a value it returned, not its failure reason, not CancelError.
\<close>

theorem promise_hijack_counterexample:
  "promise (exec (createTaskQueue \<lparr>opt_concurrency = Some 2, opt_agingMs = Some 200\<rparr>)
              [Enqueue Callable None (\<lambda>_. 0), RunJob 1, UnitResolve 1 ''hijack'',
               SettleJob 1 (Failed ''boom'')]) 1 = Fulfilled ''hijack''
   \<and> promise (exec (createTaskQueue \<lparr>opt_concurrency = Some 2, opt_agingMs = Some 200\<rparr>)
              [Enqueue Callable None (\<lambda>_. 0), RunJob 1,
               SettleJob 1 (Failed ''boom'')]) 1 = Rejected (WorkFailure ''boom'')"
  by (simp add: exec_def createTaskQueue_def enqueue_def pump.simps pickNextIndex_def
        pick_loop.simps splice1_def reject_def resolve_def Let_def)

text \<open>
  C2, amended. The promise of a task is created pending and settles at most once: once
  it is fulfilled or rejected no later step changes it. It changes only when the work
  unit's outcome is delivered (fulfilled with the value returned, rejected with the failure
  reason, or with the TypeError of calling a work unit that is not a function), when
  \<^verbatim>\<open>cancel\<close> is called (rejected with CancelError), or when the work unit itself, which
  receives the entry as \<^verbatim>\<open>this\<close>, calls \<^verbatim>\<open>this.resolve\<close> or \<^verbatim>\<open>this.reject\<close>. In
  a history without such a call for the task its promise is pending or has exactly one of
  the three outcomes of the claim, each with its cause in the history. A task whose entry
  has not escaped is settled once its outcome has been delivered, it has been canceled or
  dropped.
\<close>

theorem promise_settles_once:
  assumes "s = exec (createTaskQueue opts) es"
  shows "promise (step s (Enqueue r prio clk)) (idSeq s) = PPending
         \<and> (settled (promise s i) \<longrightarrow> promise (exec s es') i = promise s i)
         \<and> (promise (step s e) i \<noteq> promise s i \<longrightarrow>
              \<not> settled (promise s i)
              \<and> ((\<exists>v. e = SettleJob i (Returned v) \<and> stage s i = Invoked Callable
                       \<and> promise (step s e) i = Fulfilled v)
                 \<or> (\<exists>x. e = SettleJob i (Failed x) \<and> stage s i = Invoked Callable
                       \<and> promise (step s e) i = Rejected (WorkFailure x))
                 \<or> (\<exists>res. e = SettleJob i res \<and> stage s i = Invoked NotCallable
                       \<and> promise (step s e) i = Rejected TypeError)
                 \<or> (e = Cancel i \<and> promise (step s e) i = Rejected CancelError)
                 \<or> (exposed s i \<and> i \<in> set (invoked s)
                     \<and> ((\<exists>v. e = UnitResolve i v \<and> promise (step s e) i = Fulfilled v)
                        \<or> (\<exists>x. e = UnitReject i x
                               \<and> promise (step s e) i = Rejected (WorkFailure x))
                        \<or> (e = UnitFollow i \<and> promise (step s e) i = Following)
                        \<or> (\<exists>v. e = FollowSettle i (Returned v) \<and> promise s i = Following
                               \<and> promise (step s e) i = Fulfilled v)
                        \<or> (\<exists>x. e = FollowSettle i (Failed x) \<and> promise s i = Following
                               \<and> promise (step s e) i = Rejected (WorkFailure x))))))
         \<and> ((\<forall>e\<in>set es. \<not> unit_call i e) \<longrightarrow>
              promise s i = PPending
              \<or> (\<exists>v. promise s i = Fulfilled v \<and> SettleJob i (Returned v) \<in> set es)
              \<or> (\<exists>x. promise s i = Rejected (WorkFailure x) \<and> SettleJob i (Failed x) \<in> set es)
              \<or> (promise s i = Rejected TypeError \<and> (\<exists>res. SettleJob i res \<in> set es))
              \<or> (promise s i = Rejected CancelError \<and> Cancel i \<in> set es))
         \<and> (work_settled (stage s i) \<longrightarrow> promise s i \<noteq> PPending)
         \<and> (\<not> exposed s i
              \<and> (work_settled (stage s i) \<or> stage s i = Dropped \<or> canceled s i)
              \<longrightarrow> settled (promise s i))"
proof -
  have inv: "sched_inv s"
    unfolding assms using sched_inv_create by (rule sched_inv_exec)
  then have pinv: "promise_inv s" and qi: "queue_inv s"
    by (simp_all add: sched_inv_def slots_inv_def)
  have a: "promise (step s (Enqueue r prio clk)) (idSeq s) = PPending"
    by (simp add: enqueue_def Let_def)
  have b: "settled (promise s i) \<longrightarrow> promise (exec s es') i = promise s i"
    using inv
    by (auto intro!: exec_promise_frozen sched_inv_settled_created simp: settled_not_pending)
  have exi: "exposed s i \<Longrightarrow> i \<in> set (invoked s)"
    using pinv unfolding promise_inv_def by blast
  have c: "promise (step s e) i \<noteq> promise s i \<longrightarrow>
              \<not> settled (promise s i)
              \<and> ((\<exists>v. e = SettleJob i (Returned v) \<and> stage s i = Invoked Callable
                       \<and> promise (step s e) i = Fulfilled v)
                 \<or> (\<exists>x. e = SettleJob i (Failed x) \<and> stage s i = Invoked Callable
                       \<and> promise (step s e) i = Rejected (WorkFailure x))
                 \<or> (\<exists>res. e = SettleJob i res \<and> stage s i = Invoked NotCallable
                       \<and> promise (step s e) i = Rejected TypeError)
                 \<or> (e = Cancel i \<and> promise (step s e) i = Rejected CancelError)
                 \<or> (exposed s i \<and> i \<in> set (invoked s)
                     \<and> ((\<exists>v. e = UnitResolve i v \<and> promise (step s e) i = Fulfilled v)
                        \<or> (\<exists>x. e = UnitReject i x
                               \<and> promise (step s e) i = Rejected (WorkFailure x))
                        \<or> (e = UnitFollow i \<and> promise (step s e) i = Following)
                        \<or> (\<exists>v. e = FollowSettle i (Returned v) \<and> promise s i = Following
                               \<and> promise (step s e) i = Fulfilled v)
                        \<or> (\<exists>x. e = FollowSettle i (Failed x) \<and> promise s i = Following
                               \<and> promise (step s e) i = Rejected (WorkFailure x)))))"
  proof
    assume ch: "promise (step s e) i \<noteq> promise s i"
    show "\<not> settled (promise s i)
              \<and> ((\<exists>v. e = SettleJob i (Returned v) \<and> stage s i = Invoked Callable
                       \<and> promise (step s e) i = Fulfilled v)
                 \<or> (\<exists>x. e = SettleJob i (Failed x) \<and> stage s i = Invoked Callable
                       \<and> promise (step s e) i = Rejected (WorkFailure x))
                 \<or> (\<exists>res. e = SettleJob i res \<and> stage s i = Invoked NotCallable
                       \<and> promise (step s e) i = Rejected TypeError)
                 \<or> (e = Cancel i \<and> promise (step s e) i = Rejected CancelError)
                 \<or> (exposed s i \<and> i \<in> set (invoked s)
                     \<and> ((\<exists>v. e = UnitResolve i v \<and> promise (step s e) i = Fulfilled v)
                        \<or> (\<exists>x. e = UnitReject i x
                               \<and> promise (step s e) i = Rejected (WorkFailure x))
                        \<or> (e = UnitFollow i \<and> promise (step s e) i = Following)
                        \<or> (\<exists>v. e = FollowSettle i (Returned v) \<and> promise s i = Following
                               \<and> promise (step s e) i = Fulfilled v)
                        \<or> (\<exists>x. e = FollowSettle i (Failed x) \<and> promise s i = Following
                               \<and> promise (step s e) i = Rejected (WorkFailure x)))))"
      using step_promise_change [OF inv ch] exi by blast
  qed
  have d: "(\<forall>e\<in>set es. \<not> unit_call i e) \<longrightarrow>
              promise s i = PPending
              \<or> (\<exists>v. promise s i = Fulfilled v \<and> SettleJob i (Returned v) \<in> set es)
              \<or> (\<exists>x. promise s i = Rejected (WorkFailure x) \<and> SettleJob i (Failed x) \<in> set es)
              \<or> (promise s i = Rejected TypeError \<and> (\<exists>res. SettleJob i res \<in> set es))
              \<or> (promise s i = Rejected CancelError \<and> Cancel i \<in> set es)"
    unfolding assms using three_outcomes [of es i opts] by blast
  have f: "work_settled (stage s i) \<longrightarrow> promise s i \<noteq> PPending"
    using pinv unfolding promise_inv_def by blast
  have g: "\<not> exposed s i
              \<and> (work_settled (stage s i) \<or> stage s i = Dropped \<or> canceled s i)
              \<longrightarrow> settled (promise s i)"
  proof
    assume h: "\<not> exposed s i
              \<and> (work_settled (stage s i) \<or> stage s i = Dropped \<or> canceled s i)"
    then have "promise s i \<noteq> PPending" "promise s i \<noteq> Following"
      using pinv unfolding promise_inv_def by blast+
    then show "settled (promise s i)"
      by (cases "promise s i") simp_all
  qed
  show ?thesis
    using a b c d f g by blast
qed

text \<open>The equations that evaluate a concrete history.\<close>

lemmas run_simps =
  exec_def createTaskQueue_def enqueue_def pump.simps pickNextIndex_def pick_loop.simps
  score_def splice1_def cancel_def reject_def resolve_def stats_def Let_def
  Priority_high_def Priority_normal_def Priority_low_def

theorem promise_settles_once_witness:
  "promise (exec (createTaskQueue \<lparr>opt_concurrency = Some 1, opt_agingMs = None\<rparr>)
              [Enqueue Callable None (\<lambda>_. 0), RunJob 1]) 1 = PPending
   \<and> promise (step (exec (createTaskQueue \<lparr>opt_concurrency = Some 1, opt_agingMs = None\<rparr>)
                       [Enqueue Callable None (\<lambda>_. 0), RunJob 1])
                 (SettleJob 1 (Returned ''a''))) 1 = Fulfilled ''a''
   \<and> SettleJob 1 (Returned ''a'')
       \<in> set [Enqueue Callable None (\<lambda>_. 0), RunJob 1, SettleJob 1 (Returned ''a'')]
   \<and> \<not> unit_call 1 (SettleJob 1 (Returned ''a''))
   \<and> stage (exec (createTaskQueue \<lparr>opt_concurrency = Some 1, opt_agingMs = None\<rparr>)
              [Enqueue Callable None (\<lambda>_. 0), RunJob 1, SettleJob 1 (Returned ''a'')]) 1
       = Resolved
   \<and> promise (exec (step (exec (createTaskQueue \<lparr>opt_concurrency = Some 1, opt_agingMs = None\<rparr>)
                             [Enqueue Callable None (\<lambda>_. 0), RunJob 1])
                       (SettleJob 1 (Returned ''a'')))
                 [Cancel 1, UnitReject 1 ''late'', FinallyJob 1 (\<lambda>_. 9)]) 1 = Fulfilled ''a''"
  using promise_settles_once [of
      "exec (createTaskQueue \<lparr>opt_concurrency = Some 1, opt_agingMs = None\<rparr>)
         [Enqueue Callable None (\<lambda>_. 0), RunJob 1]"
      "\<lparr>opt_concurrency = Some 1, opt_agingMs = None\<rparr>"
      "[Enqueue Callable None (\<lambda>_. 0), RunJob 1]"
      Callable None "\<lambda>_. 0" 1 "[]" "SettleJob 1 (Returned ''a'')"]
    promise_settles_once [of
      "exec (createTaskQueue \<lparr>opt_concurrency = Some 1, opt_agingMs = None\<rparr>)
         [Enqueue Callable None (\<lambda>_. 0), RunJob 1, SettleJob 1 (Returned ''a'')]"
      "\<lparr>opt_concurrency = Some 1, opt_agingMs = None\<rparr>"
      "[Enqueue Callable None (\<lambda>_. 0), RunJob 1, SettleJob 1 (Returned ''a'')]"
      Callable None "\<lambda>_. 0" 1 "[Cancel 1, UnitReject 1 ''late'', FinallyJob 1 (\<lambda>_. 9)]"
      "Cancel 1"]
  by (simp add: run_simps)

section \<open>Cancellation\<close>

lemma canceled_waiting_pump:
  "canceled_waiting i s \<Longrightarrow> canceled_waiting i (pump clk k s)"
  by (rule pump_rule [where P = "canceled_waiting i"]) (auto simp add: canceled_waiting_def)

lemma canceled_waiting_step:
  assumes "canceled_waiting i s"
  shows "canceled_waiting i (step s e)"
proof (cases e)
  case (Enqueue r prio clk)
  have "canceled_waiting i (s\<lparr>idSeq := Suc (idSeq s), canceled := (canceled s)(idSeq s := False),
          promise := (promise s)(idSeq s := PPending), stage := (stage s)(idSeq s := Queued),
          q := q s @ [\<lparr>id' = idSeq s,
                        priority = (case prio of None \<Rightarrow> Priority_normal | Some p \<Rightarrow> p),
                        enqueuedAt = clk 0, run = r\<rparr>]\<rparr>)"
    using assms by (simp add: canceled_waiting_def)
  then show ?thesis
    unfolding Enqueue by (simp add: enqueue_def Let_def canceled_waiting_pump)
next
  case (Cancel j)
  then show ?thesis
    using assms by (auto simp add: canceled_waiting_def cancel_def reject_def split: pstate.splits)
next
  case (RunJob j)
  then show ?thesis
    using assms by (cases "stage s j") (auto simp add: canceled_waiting_def)
next
  case (SettleJob j res)
  show ?thesis
  proof (cases "stage s j")
    case (Invoked w)
    then show ?thesis
      using assms unfolding SettleJob
      by (cases w; cases res)
         (auto simp add: canceled_waiting_def Let_def settle_promise_frozen)
  qed (use assms SettleJob in simp_all)
next
  case (FinallyJob j clk)
  show ?thesis
  proof (cases "stage s j")
    case Resolved
    have "canceled_waiting i (s\<lparr>running := running s - 1, stage := (stage s)(j := Done)\<rparr>)"
      using assms Resolved by (auto simp add: canceled_waiting_def)
    then show ?thesis
      using Resolved unfolding FinallyJob by (simp add: canceled_waiting_pump)
  qed (use assms FinallyJob in simp_all)
qed (use assms in \<open>auto simp add: canceled_waiting_def settle_promise_frozen
                         split: pstate.splits result.splits\<close>)

lemma canceled_waiting_exec: "canceled_waiting i s \<Longrightarrow> canceled_waiting i (exec s es)"
  unfolding exec_def by (induction es arbitrary: s) (simp_all add: canceled_waiting_step)

lemma cancel_queued:
  assumes "sched_inv s" and "it \<in> set (q s)"
  shows "canceled_waiting (id' it) (step s (Cancel (id' it)))"
proof -
  let ?i = "id' it"
  have qi: "queue_inv s" and pinv: "promise_inv s"
    using assms(1) by (simp_all add: sched_inv_def slots_inv_def)
  have rng: "1 \<le> ?i" "?i < idSeq s" and st: "stage s ?i = Queued"
    using qi assms(2) unfolding queue_inv_def by simp_all
  have "\<forall>j\<in>set (invoked s). j \<noteq> ?i"
    using qi st was_invoked_neq unfolding queue_inv_def by metis
  then have ninv: "?i \<notin> set (invoked s)"
    by blast
  have "\<not> exposed s ?i" and "promise s ?i = PPending \<or> promise s ?i = Rejected CancelError"
    using pinv st by (rule promise_inv_queued)+
  then show ?thesis
    using rng st ninv by (auto simp add: canceled_waiting_def cancel_def reject_def)
qed

text \<open>
  C7. A task that is canceled while its entry is still in the queue (not yet dispatched)
  settles to CancelError in that very call, which leaves the counter \<^verbatim>\<open>running\<close> and
  every stage as they were; whatever happens afterwards, its work unit is never called,
  it never holds a slot (the counter counts exactly the tasks that hold one), the
  dispatcher at most drops its entry, and its outcome stays CancelError.
\<close>

theorem cancel_before_dispatch:
  assumes "s = exec (createTaskQueue opts) es" and "it \<in> set (q s)"
    and "s' = step s (Cancel (id' it))" and "t = exec s' es'"
  shows "promise s' (id' it) = Rejected CancelError
         \<and> running s' = running s \<and> stage s' = stage s \<and> q s' = q s
         \<and> id' it \<notin> set (invoked t)
         \<and> (stage t (id' it) = Queued \<or> stage t (id' it) = Dropped)
         \<and> \<not> is_inflight (stage t (id' it))
         \<and> running t = int (inflight_count t)
         \<and> promise t (id' it) = Rejected CancelError"
proof -
  have inv: "sched_inv s"
    unfolding assms(1) using sched_inv_create by (rule sched_inv_exec)
  have cw: "canceled_waiting (id' it) s'"
    unfolding assms(3) using inv assms(2) by (rule cancel_queued)
  then have cwt: "canceled_waiting (id' it) t"
    unfolding assms(4) by (rule canceled_waiting_exec)
  have "sched_inv s'"
    unfolding assms(3) using inv by (rule sched_inv_step)
  then have "sched_inv t"
    unfolding assms(4) by (rule sched_inv_exec)
  then have cnt: "running t = int (inflight_count t)"
    by (simp add: sched_inv_def slots_inv_def inflight_count_card)
  have same: "running s' = running s \<and> stage s' = stage s \<and> q s' = q s"
    unfolding assms(3) by (simp add: cancel_def)
  have nf: "\<not> is_inflight (stage t (id' it))"
    using cwt by (auto simp add: canceled_waiting_def)
  show ?thesis
    using cw cwt cnt same nf by (simp add: canceled_waiting_def)
qed

theorem cancel_before_dispatch_witness:
  "\<lparr>id' = 2, priority = 1, enqueuedAt = 0, run = Callable\<rparr>
     \<in> set (q (exec (createTaskQueue \<lparr>opt_concurrency = Some 1, opt_agingMs = None\<rparr>)
                 [Enqueue Callable None (\<lambda>_. 0), Enqueue Callable None (\<lambda>_. 0)]))
   \<and> promise (step (exec (createTaskQueue \<lparr>opt_concurrency = Some 1, opt_agingMs = None\<rparr>)
                      [Enqueue Callable None (\<lambda>_. 0), Enqueue Callable None (\<lambda>_. 0)])
                 (Cancel 2)) 2 = Rejected CancelError
   \<and> stage (exec (step (exec (createTaskQueue \<lparr>opt_concurrency = Some 1, opt_agingMs = None\<rparr>)
                      [Enqueue Callable None (\<lambda>_. 0), Enqueue Callable None (\<lambda>_. 0)])
                 (Cancel 2))
            [RunJob 1, SettleJob 1 (Returned ''a''), FinallyJob 1 (\<lambda>_. 7), RunJob 2]) 2 = Dropped
   \<and> 2 \<notin> set (invoked (exec (step (exec (createTaskQueue \<lparr>opt_concurrency = Some 1, opt_agingMs = None\<rparr>)
                      [Enqueue Callable None (\<lambda>_. 0), Enqueue Callable None (\<lambda>_. 0)])
                 (Cancel 2))
            [RunJob 1, SettleJob 1 (Returned ''a''), FinallyJob 1 (\<lambda>_. 7), RunJob 2]))"
  using cancel_before_dispatch [of
      "exec (createTaskQueue \<lparr>opt_concurrency = Some 1, opt_agingMs = None\<rparr>)
                 [Enqueue Callable None (\<lambda>_. 0), Enqueue Callable None (\<lambda>_. 0)]"
      "\<lparr>opt_concurrency = Some 1, opt_agingMs = None\<rparr>"
      "[Enqueue Callable None (\<lambda>_. 0), Enqueue Callable None (\<lambda>_. 0)]"
      "\<lparr>id' = 2, priority = 1, enqueuedAt = 0, run = Callable\<rparr>"
      "step (exec (createTaskQueue \<lparr>opt_concurrency = Some 1, opt_agingMs = None\<rparr>)
                      [Enqueue Callable None (\<lambda>_. 0), Enqueue Callable None (\<lambda>_. 0)])
                 (Cancel 2)"
      "exec (step (exec (createTaskQueue \<lparr>opt_concurrency = Some 1, opt_agingMs = None\<rparr>)
                      [Enqueue Callable None (\<lambda>_. 0), Enqueue Callable None (\<lambda>_. 0)])
                 (Cancel 2))
            [RunJob 1, SettleJob 1 (Returned ''a''), FinallyJob 1 (\<lambda>_. 7), RunJob 2]"
      "[RunJob 1, SettleJob 1 (Returned ''a''), FinallyJob 1 (\<lambda>_. 7), RunJob 2]"]
  by (simp add: run_simps)

lemma cancel_cancel: "cancel i (cancel i s) = cancel i s"
  by (cases "promise s i") (simp_all add: cancel_def reject_def)

text \<open>
  C5 as the claim states it fails: \<^verbatim>\<open>cancel\<close> on a task whose work unit is running
  rejects the promise, and the value the work unit returns afterwards is discarded.
\<close>

theorem cancel_running_counterexample:
  "stage (exec (createTaskQueue \<lparr>opt_concurrency = Some 2, opt_agingMs = Some 200\<rparr>)
            [Enqueue Callable None (\<lambda>_. 0), RunJob 1]) 1 = Invoked Callable
   \<and> promise (exec (createTaskQueue \<lparr>opt_concurrency = Some 2, opt_agingMs = Some 200\<rparr>)
            [Enqueue Callable None (\<lambda>_. 0), RunJob 1, SettleJob 1 (Returned ''done'')]) 1
       = Fulfilled ''done''
   \<and> promise (exec (createTaskQueue \<lparr>opt_concurrency = Some 2, opt_agingMs = Some 200\<rparr>)
            [Enqueue Callable None (\<lambda>_. 0), RunJob 1, Cancel 1,
             SettleJob 1 (Returned ''done'')]) 1
       = Rejected CancelError"
  by (simp add: run_simps)

text \<open>
  C5, amended. \<^verbatim>\<open>cancel\<close> is idempotent. On a task that has settled it leaves the
  outcome as it is. On a task whose promise is still pending, queued or running, it
  rejects the promise at once with CancelError, and no later job changes that: the result
  of a running work unit is discarded. It does not interrupt the work unit: the counter,
  the queue, the stages and the record of calls are as before.
\<close>

theorem cancel_effect:
  assumes "1 \<le> i" and "i < idSeq s"
  shows "step (step s (Cancel i)) (Cancel i) = step s (Cancel i)
         \<and> (promise s i \<noteq> PPending \<longrightarrow> promise (step s (Cancel i)) i = promise s i)
         \<and> (promise s i = PPending \<longrightarrow>
              promise (exec (step s (Cancel i)) es) i = Rejected CancelError)
         \<and> running (step s (Cancel i)) = running s
         \<and> q (step s (Cancel i)) = q s
         \<and> stage (step s (Cancel i)) = stage s
         \<and> invoked (step s (Cancel i)) = invoked s"
proof -
  have a: "step (step s (Cancel i)) (Cancel i) = step s (Cancel i)"
    using assms by (simp add: cancel_cancel)
  have b: "promise s i \<noteq> PPending \<longrightarrow> promise (step s (Cancel i)) i = promise s i"
    using assms by (simp add: cancel_def settle_promise_frozen)
  have c: "promise s i = PPending \<longrightarrow>
             promise (exec (step s (Cancel i)) es) i = Rejected CancelError"
  proof
    assume "promise s i = PPending"
    then have now: "promise (step s (Cancel i)) i = Rejected CancelError"
      using assms by (simp add: cancel_def reject_def)
    moreover have "i < idSeq (step s (Cancel i))"
      using assms by (simp add: cancel_def)
    ultimately have "promise (exec (step s (Cancel i)) es) i = promise (step s (Cancel i)) i"
      by (intro exec_promise_frozen) simp_all
    with now show "promise (exec (step s (Cancel i)) es) i = Rejected CancelError"
      by simp
  qed
  have d: "running (step s (Cancel i)) = running s \<and> q (step s (Cancel i)) = q s
           \<and> stage (step s (Cancel i)) = stage s \<and> invoked (step s (Cancel i)) = invoked s"
    by (simp add: cancel_def)
  show ?thesis
    using a b c d by blast
qed

theorem cancel_effect_witness:
  "(1::nat) \<le> 1
   \<and> 1 < idSeq (exec (createTaskQueue \<lparr>opt_concurrency = Some 2, opt_agingMs = Some 200\<rparr>)
                  [Enqueue Callable None (\<lambda>_. 0), RunJob 1])
   \<and> promise (exec (createTaskQueue \<lparr>opt_concurrency = Some 2, opt_agingMs = Some 200\<rparr>)
                  [Enqueue Callable None (\<lambda>_. 0), RunJob 1]) 1 = PPending
   \<and> promise (exec (step (exec (createTaskQueue \<lparr>opt_concurrency = Some 2, opt_agingMs = Some 200\<rparr>)
                             [Enqueue Callable None (\<lambda>_. 0), RunJob 1]) (Cancel 1))
                 [SettleJob 1 (Returned ''done''), FinallyJob 1 (\<lambda>_. 5)]) 1
       = Rejected CancelError
   \<and> promise (step (exec (createTaskQueue \<lparr>opt_concurrency = Some 2, opt_agingMs = Some 200\<rparr>)
                       [Enqueue Callable None (\<lambda>_. 0), RunJob 1, SettleJob 1 (Failed ''x'')])
                 (Cancel 1)) 1
       = Rejected (WorkFailure ''x'')"
  using cancel_effect [of 1
      "exec (createTaskQueue \<lparr>opt_concurrency = Some 2, opt_agingMs = Some 200\<rparr>)
         [Enqueue Callable None (\<lambda>_. 0), RunJob 1]"
      "[SettleJob 1 (Returned ''done''), FinallyJob 1 (\<lambda>_. 5)]"]
    cancel_effect [of 1
      "exec (createTaskQueue \<lparr>opt_concurrency = Some 2, opt_agingMs = Some 200\<rparr>)
         [Enqueue Callable None (\<lambda>_. 0), RunJob 1, SettleJob 1 (Failed ''x'')]" "[]"]
  by (simp add: run_simps)

section \<open>The contents of the queue\<close>

text \<open>
  C6 as the claim states it fails: \<^verbatim>\<open>cancel\<close> does not remove the entry from the
  array. With one slot taken, the canceled and settled second task is still queued, and
  \<^verbatim>\<open>stats().queued\<close> counts it.
\<close>

theorem pending_set_counterexample:
  "map id' (q (exec (createTaskQueue \<lparr>opt_concurrency = Some 1, opt_agingMs = Some 200\<rparr>)
            [Enqueue Callable None (\<lambda>_. 0), Enqueue Callable None (\<lambda>_. 0), Cancel 2])) = [2]
   \<and> canceled (exec (createTaskQueue \<lparr>opt_concurrency = Some 1, opt_agingMs = Some 200\<rparr>)
            [Enqueue Callable None (\<lambda>_. 0), Enqueue Callable None (\<lambda>_. 0), Cancel 2]) 2
   \<and> promise (exec (createTaskQueue \<lparr>opt_concurrency = Some 1, opt_agingMs = Some 200\<rparr>)
            [Enqueue Callable None (\<lambda>_. 0), Enqueue Callable None (\<lambda>_. 0), Cancel 2]) 2
       = Rejected CancelError
   \<and> stats (exec (createTaskQueue \<lparr>opt_concurrency = Some 1, opt_agingMs = Some 200\<rparr>)
            [Enqueue Callable None (\<lambda>_. 0), Enqueue Callable None (\<lambda>_. 0), Cancel 2]) = (1, 1)"
  by (simp add: run_simps)

text \<open>
  C6, amended. After every job the queue holds only entries that were never dispatched
  (none that is dispatched, has completed or was dropped), each either still pending or
  canceled: a canceled entry, whose promise is settled to CancelError, stays in the array
  until a later pass of \<^verbatim>\<open>pump\<close> selects and drops it, and \<^verbatim>\<open>stats().queued\<close>,
  the length of the array, counts the pending and the canceled entries alike.
\<close>

theorem pending_set_contents:
  assumes "s = exec (createTaskQueue opts) es"
  shows "(\<forall>it\<in>set (q s).
            stage s (id' it) = Queued \<and> id' it \<notin> set (invoked s)
            \<and> (if canceled s (id' it) then promise s (id' it) = Rejected CancelError
                else promise s (id' it) = PPending))
         \<and> (\<forall>i. stage s i \<noteq> Queued \<longrightarrow> i \<notin> id' ` set (q s))
         \<and> distinct (map id' (q s))
         \<and> fst (stats s) = length (q s)
         \<and> fst (stats s) = length (filter (\<lambda>it. promise s (id' it) = PPending) (q s))
                           + length (filter (\<lambda>it. canceled s (id' it)) (q s))"
proof -
  have inv: "sched_inv s"
    unfolding assms using sched_inv_create by (rule sched_inv_exec)
  then have qi: "queue_inv s" and pinv: "promise_inv s"
    by (simp_all add: sched_inv_def slots_inv_def)
  have a: "\<forall>it\<in>set (q s).
            stage s (id' it) = Queued \<and> id' it \<notin> set (invoked s)
            \<and> (if canceled s (id' it) then promise s (id' it) = Rejected CancelError
                else promise s (id' it) = PPending)"
  proof
    fix it assume mem: "it \<in> set (q s)"
    have st: "stage s (id' it) = Queued"
      using qi mem unfolding queue_inv_def by simp
    have "\<forall>j\<in>set (invoked s). j \<noteq> id' it"
      using qi st was_invoked_neq unfolding queue_inv_def by metis
    then have ni: "id' it \<notin> set (invoked s)"
      by blast
    have "\<not> exposed s (id' it)"
      and "promise s (id' it) = PPending \<or> promise s (id' it) = Rejected CancelError"
      using pinv st by (rule promise_inv_queued)+
    then have "if canceled s (id' it) then promise s (id' it) = Rejected CancelError
               else promise s (id' it) = PPending"
      using pinv unfolding promise_inv_def by auto
    with st ni show "stage s (id' it) = Queued \<and> id' it \<notin> set (invoked s)
            \<and> (if canceled s (id' it) then promise s (id' it) = Rejected CancelError
                else promise s (id' it) = PPending)"
      by simp
  qed
  have b: "\<forall>i. stage s i \<noteq> Queued \<longrightarrow> i \<notin> id' ` set (q s)"
    using qi unfolding queue_inv_def by auto
  have c: "distinct (map id' (q s))"
    using qi by (rule queue_inv_distinct)
  have d: "fst (stats s) = length (q s)"
    by (simp add: stats_def)
  have "\<And>it. it \<in> set (q s) \<Longrightarrow> (promise s (id' it) = PPending) = (\<not> canceled s (id' it))"
    using a by (auto split: if_splits)
  then have "filter (\<lambda>it. promise s (id' it) = PPending) (q s)
             = filter (\<lambda>it. \<not> canceled s (id' it)) (q s)"
    by (intro filter_cong) simp_all
  then have e: "fst (stats s) = length (filter (\<lambda>it. promise s (id' it) = PPending) (q s))
                           + length (filter (\<lambda>it. canceled s (id' it)) (q s))"
    using sum_length_filter_compl [of "\<lambda>it. canceled s (id' it)" "q s"]
    by (simp add: stats_def)
  show ?thesis
    using a b c d e by blast
qed

theorem pending_set_contents_witness:
  "map id' (q (exec (createTaskQueue \<lparr>opt_concurrency = Some 1, opt_agingMs = Some 200\<rparr>)
            [Enqueue Callable None (\<lambda>_. 0), Enqueue Callable None (\<lambda>_. 0), Cancel 2])) = [2]
   \<and> stage (exec (createTaskQueue \<lparr>opt_concurrency = Some 1, opt_agingMs = Some 200\<rparr>)
            [Enqueue Callable None (\<lambda>_. 0), Enqueue Callable None (\<lambda>_. 0), Cancel 2]) 2 = Queued
   \<and> fst (stats (exec (createTaskQueue \<lparr>opt_concurrency = Some 1, opt_agingMs = Some 200\<rparr>)
            [Enqueue Callable None (\<lambda>_. 0), Enqueue Callable None (\<lambda>_. 0), Cancel 2])) = 1"
  using pending_set_contents [of
      "exec (createTaskQueue \<lparr>opt_concurrency = Some 1, opt_agingMs = Some 200\<rparr>)
            [Enqueue Callable None (\<lambda>_. 0), Enqueue Callable None (\<lambda>_. 0), Cancel 2]"
      "\<lparr>opt_concurrency = Some 1, opt_agingMs = Some 200\<rparr>"
      "[Enqueue Callable None (\<lambda>_. 0), Enqueue Callable None (\<lambda>_. 0), Cancel 2]"]
  by (simp add: run_simps)

section \<open>Validation of the arguments\<close>

text \<open>
  C8 as the claim states it fails: no argument is validated. A queue is constructed for
  the concurrency limit 0, and a work unit that is not a function is queued on it.
\<close>

theorem no_validation_counterexample:
  "concurrency (createTaskQueue \<lparr>opt_concurrency = Some 0, opt_agingMs = None\<rparr>) = 0
   \<and> q (snd (enqueue NotCallable None (\<lambda>_. 0)
               (createTaskQueue \<lparr>opt_concurrency = Some 0, opt_agingMs = None\<rparr>)))
       = [\<lparr>id' = 1, priority = 1, enqueuedAt = 0, run = NotCallable\<rparr>]
   \<and> stats (snd (enqueue NotCallable None (\<lambda>_. 0)
               (createTaskQueue \<lparr>opt_concurrency = Some 0, opt_agingMs = None\<rparr>))) = (1, 0)
   \<and> q (exec (createTaskQueue \<lparr>opt_concurrency = Some 1, opt_agingMs = None\<rparr>)
            [Enqueue Callable None (\<lambda>_. 0), Enqueue NotCallable None (\<lambda>_. 0)])
       = [\<lparr>id' = 2, priority = 1, enqueuedAt = 0, run = NotCallable\<rparr>]"
  by (simp add: run_simps)

lemma pump_full: "\<not> running s < concurrency s \<Longrightarrow> pump clk k s = s"
  by (subst pump.simps) simp

lemma pump_stage_cases:
  assumes "stage s i = Queued" and "\<forall>it\<in>set (q s). id' it = i \<longrightarrow> run it = w"
  shows "stage (pump clk k s) i = Queued \<or> stage (pump clk k s) i = Dropped
         \<or> stage (pump clk k s) i = Dispatched w"
proof -
  let ?P = "\<lambda>t. (\<forall>it\<in>set (q t). id' it = i \<longrightarrow> run it = w)
               \<and> (stage t i = Queued \<or> stage t i = Dropped \<or> stage t i = Dispatched w)"
  have "?P (pump clk k s)"
  proof (rule pump_rule [where P = ?P])
    show "?P s" using assms by simp
  next
    fix t idx
    assume "?P t" and "idx < length (q t)"
    then show "?P (t\<lparr>q := splice1 idx (q t), stage := (stage t)(id' (q t ! idx) := Dropped)\<rparr>)"
      using set_splice1_subset [of idx "q t"] by auto
  next
    fix t idx
    assume "?P t" and "idx < length (q t)"
    then show "?P (t\<lparr>q := splice1 idx (q t), running := running t + 1,
                   stage := (stage t)(id' (q t ! idx) := Dispatched (run (q t ! idx)))\<rparr>)"
      using set_splice1_subset [of idx "q t"] nth_mem [of idx "q t"] by auto
  qed
  then show ?thesis by simp
qed

text \<open>
  C8, amended. Neither \<^verbatim>\<open>createTaskQueue\<close> nor \<^verbatim>\<open>enqueue\<close> validates anything:
  every concurrency limit is taken as it is, and every work unit, callable or not, gets
  an id, a pending promise and an entry in the queue (which the same call may already
  dispatch; with no free slot the entry stays queued). A work unit that is not a function
  fails only once it is dispatched and called: its promise, unless canceled before, is
  then rejected with a TypeError.
\<close>

theorem no_validation:
  assumes "s = exec (createTaskQueue opts) es"
  shows "concurrency (createTaskQueue \<lparr>opt_concurrency = Some c, opt_agingMs = a\<rparr>) = c
         \<and> fst (enqueue w prio clk s) = idSeq s
         \<and> promise (snd (enqueue w prio clk s)) (idSeq s) = PPending
         \<and> (stage (snd (enqueue w prio clk s)) (idSeq s) = Queued
            \<or> stage (snd (enqueue w prio clk s)) (idSeq s) = Dispatched w)
         \<and> (\<not> running s < concurrency s \<longrightarrow>
              q (snd (enqueue w prio clk s))
                = q s @ [\<lparr>id' = idSeq s,
                           priority = (case prio of None \<Rightarrow> Priority_normal | Some p \<Rightarrow> p),
                           enqueuedAt = clk 0, run = w\<rparr>])
         \<and> (stage s i = Dispatched NotCallable \<and> promise s i = PPending \<longrightarrow>
              promise (exec s [RunJob i, SettleJob i res]) i = Rejected TypeError)"
proof -
  let ?it = "\<lparr>id' = idSeq s, priority = (case prio of None \<Rightarrow> Priority_normal | Some p \<Rightarrow> p),
               enqueuedAt = clk 0, run = w\<rparr>"
  let ?t = "s\<lparr>idSeq := Suc (idSeq s), canceled := (canceled s)(idSeq s := False),
               promise := (promise s)(idSeq s := PPending), stage := (stage s)(idSeq s := Queued),
               q := q s @ [?it]\<rparr>"
  have enq: "snd (enqueue w prio clk s) = pump clk 1 ?t"
    by (simp add: enqueue_def Let_def)
  have inv: "sched_inv s"
    unfolding assms using sched_inv_create by (rule sched_inv_exec)
  then have qi: "queue_inv s"
    by (simp add: sched_inv_def slots_inv_def)
  have a: "concurrency (createTaskQueue \<lparr>opt_concurrency = Some c, opt_agingMs = a\<rparr>) = c"
    by (simp add: createTaskQueue_def)
  have b: "fst (enqueue w prio clk s) = idSeq s"
    by (simp add: enqueue_def Let_def)
  have c: "promise (snd (enqueue w prio clk s)) (idSeq s) = PPending"
    unfolding enq by simp
  have ids: "\<forall>it\<in>set (q s). id' it \<noteq> idSeq s"
    using qi unfolding queue_inv_def by auto
  have "sched_inv (step s (Enqueue w prio clk))"
    using inv by (rule sched_inv_step)
  then have inv': "sched_inv (pump clk 1 ?t)"
    using enq by simp
  have "stage (pump clk 1 ?t) (idSeq s) = Queued \<or> stage (pump clk 1 ?t) (idSeq s) = Dropped
        \<or> stage (pump clk 1 ?t) (idSeq s) = Dispatched w"
    using ids by (intro pump_stage_cases) auto
  moreover have "stage (pump clk 1 ?t) (idSeq s) \<noteq> Dropped"
  proof
    assume "stage (pump clk 1 ?t) (idSeq s) = Dropped"
    then have "canceled (pump clk 1 ?t) (idSeq s)"
      using inv' unfolding sched_inv_def promise_inv_def by blast
    then show False by simp
  qed
  ultimately have d: "stage (snd (enqueue w prio clk s)) (idSeq s) = Queued
            \<or> stage (snd (enqueue w prio clk s)) (idSeq s) = Dispatched w"
    unfolding enq by blast
  have e: "\<not> running s < concurrency s \<longrightarrow> q (snd (enqueue w prio clk s)) = q s @ [?it]"
    unfolding enq by (simp add: pump_full)
  have f: "stage s i = Dispatched NotCallable \<and> promise s i = PPending \<longrightarrow>
              promise (exec s [RunJob i, SettleJob i res]) i = Rejected TypeError"
    by (simp add: exec_def reject_def)
  show ?thesis
    using a b c d e f by blast
qed

theorem no_validation_witness:
  "\<not> running (exec (createTaskQueue \<lparr>opt_concurrency = Some 1, opt_agingMs = None\<rparr>)
                  [Enqueue NotCallable None (\<lambda>_. 0)])
      < concurrency (exec (createTaskQueue \<lparr>opt_concurrency = Some 1, opt_agingMs = None\<rparr>)
                  [Enqueue NotCallable None (\<lambda>_. 0)])
   \<and> stage (exec (createTaskQueue \<lparr>opt_concurrency = Some 1, opt_agingMs = None\<rparr>)
                  [Enqueue NotCallable None (\<lambda>_. 0)]) 1 = Dispatched NotCallable
   \<and> promise (exec (createTaskQueue \<lparr>opt_concurrency = Some 1, opt_agingMs = None\<rparr>)
                  [Enqueue NotCallable None (\<lambda>_. 0)]) 1 = PPending
   \<and> promise (exec (exec (createTaskQueue \<lparr>opt_concurrency = Some 1, opt_agingMs = None\<rparr>)
                         [Enqueue NotCallable None (\<lambda>_. 0)])
                 [RunJob 1, SettleJob 1 (Returned ''v'')]) 1 = Rejected TypeError
   \<and> q (snd (enqueue NotCallable (Some 0) (\<lambda>_. 3)
               (exec (createTaskQueue \<lparr>opt_concurrency = Some 1, opt_agingMs = None\<rparr>)
                  [Enqueue NotCallable None (\<lambda>_. 0)])))
       = [\<lparr>id' = 2, priority = 0, enqueuedAt = 3, run = NotCallable\<rparr>]"
  using no_validation [of
      "exec (createTaskQueue \<lparr>opt_concurrency = Some 1, opt_agingMs = None\<rparr>)
         [Enqueue NotCallable None (\<lambda>_. 0)]"
      "\<lparr>opt_concurrency = Some 1, opt_agingMs = None\<rparr>"
      "[Enqueue NotCallable None (\<lambda>_. 0)]" 0 None NotCallable "Some 0" "\<lambda>_. 3" 1
      "Returned ''v''"]
  by (simp add: run_simps)

section \<open>The selector\<close>

lemma pick_loop_first_min:
  assumes "aging \<noteq> 0" "bestIdx < i" "i \<le> length xs"
    and "bestScore = score aging (xs ! bestIdx) now"
    and "\<forall>j<i. \<not> js_lt (score aging (xs ! j) now) bestScore"
    and "\<forall>j<bestIdx. js_lt bestScore (score aging (xs ! j) now)"
  shows "pick_loop aging now xs i bestIdx bestScore < length xs \<and>
         (\<forall>j<length xs. \<not> js_lt (score aging (xs ! j) now)
               (score aging (xs ! pick_loop aging now xs i bestIdx bestScore) now)) \<and>
         (\<forall>j<pick_loop aging now xs i bestIdx bestScore.
             js_lt (score aging (xs ! pick_loop aging now xs i bestIdx bestScore) now)
               (score aging (xs ! j) now))"
  using assms
proof (induction aging now xs i bestIdx bestScore rule: pick_loop.induct)
  case (1 aging now xs i bestIdx bestScore)
  show ?case
  proof (cases "i < length xs")
    case False
    with "1.prems" show ?thesis
      by (subst (1 2 3 4) pick_loop.simps) simp
  next
    case True
    note lt = True
    let ?s = "score aging (xs ! i) now"
    show ?thesis
    proof (cases "js_lt ?s bestScore")
      case True
      have a: "\<forall>j<i + 1. \<not> js_lt (score aging (xs ! j) now) ?s"
      proof (intro allI impI)
        fix j assume "j < i + 1"
        then consider "j < i" | "j = i" by linarith
        then show "\<not> js_lt (score aging (xs ! j) now) ?s"
        proof cases
          case 1
          then have "\<not> js_lt (score aging (xs ! j) now) bestScore"
            using "1.prems" by blast
          with True "1.prems"(1,4) show ?thesis
            by (auto simp: score_Fin)
        next
          case 2
          then show ?thesis
            using "1.prems"(1) by (simp add: score_Fin)
        qed
      qed
      have b: "\<forall>j<i. js_lt ?s (score aging (xs ! j) now)"
      proof (intro allI impI)
        fix j assume "j < i"
        then have "\<not> js_lt (score aging (xs ! j) now) bestScore"
          using "1.prems" by blast
        with True "1.prems"(1,4) show "js_lt ?s (score aging (xs ! j) now)"
          by (auto simp: score_Fin)
      qed
      have eq: "pick_loop aging now xs i bestIdx bestScore = pick_loop aging now xs (i + 1) i ?s"
        using lt True by (subst pick_loop.simps) (simp add: Let_def)
      show ?thesis
        unfolding eq using "1.IH"(1) [OF lt refl True] "1.prems"(1) lt a b by simp
    next
      case False
      have a: "\<forall>j<i + 1. \<not> js_lt (score aging (xs ! j) now) bestScore"
        using False "1.prems"(5) less_Suc_eq by auto
      have eq: "pick_loop aging now xs i bestIdx bestScore
                = pick_loop aging now xs (i + 1) bestIdx bestScore"
        using lt False by (subst pick_loop.simps) (simp add: Let_def)
      show ?thesis
        unfolding eq using "1.IH"(2) [OF lt refl False] "1.prems" lt a by simp
    qed
  qed
qed

lemma pickNextIndex_first_min:
  assumes "aging \<noteq> 0" and "xs \<noteq> []"
  shows "\<exists>idx. pickNextIndex aging now xs = Some idx \<and> idx < length xs
           \<and> (\<forall>j<length xs. \<not> js_lt (score aging (xs ! j) now) (score aging (xs ! idx) now))
           \<and> (\<forall>j<idx. js_lt (score aging (xs ! idx) now) (score aging (xs ! j) now))"
proof -
  let ?r = "pick_loop aging now xs 1 0 (score aging (xs ! 0) now)"
  have "\<forall>j<1. \<not> js_lt (score aging (xs ! j) now) (score aging (xs ! 0) now)"
    using assms(1) by (simp add: score_Fin)
  then have "?r < length xs \<and>
         (\<forall>j<length xs. \<not> js_lt (score aging (xs ! j) now) (score aging (xs ! ?r) now)) \<and>
         (\<forall>j<?r. js_lt (score aging (xs ! ?r) now) (score aging (xs ! j) now))"
    using assms by (intro pick_loop_first_min) (simp_all add: Suc_leI)
  moreover have "pickNextIndex aging now xs = Some ?r"
    using assms(2) by (simp add: pickNextIndex_def)
  ultimately show ?thesis
    by blast
qed

lemma pickNextIndex_head:
  assumes "aging \<noteq> 0" and "xs \<noteq> []"
    and "\<forall>j<length xs. \<not> js_lt (score aging (xs ! j) now) (score aging (xs ! 0) now)"
  shows "pickNextIndex aging now xs = Some 0"
proof -
  obtain idx where idx: "pickNextIndex aging now xs = Some idx" "idx < length xs"
    and first: "\<forall>j<idx. js_lt (score aging (xs ! idx) now) (score aging (xs ! j) now)"
    using pickNextIndex_first_min [OF assms(1,2), of now] by blast
  have "idx = 0"
  proof (rule ccontr)
    assume "idx \<noteq> 0"
    then have "js_lt (score aging (xs ! idx) now) (score aging (xs ! 0) now)"
      using first by simp
    with assms(3) idx(2) show False by blast
  qed
  with idx(1) show ?thesis by simp
qed

lemma pump_dispatch_head:
  assumes "running s < concurrency s" and "\<not> running s + 1 < concurrency s"
    and "q s = it # rest" and "agingMs s \<noteq> 0" and "\<not> canceled s (id' it)"
    and "\<forall>x\<in>set rest. \<not> js_lt (score (agingMs s) x (clk k)) (score (agingMs s) it (clk k))"
  shows "pump clk k s = s\<lparr>q := rest, running := running s + 1,
                            stage := (stage s)(id' it := Dispatched (run it))\<rparr>"
proof -
  have "\<forall>j<length (q s). \<not> js_lt (score (agingMs s) (q s ! j) (clk k))
                                  (score (agingMs s) (q s ! 0) (clk k))"
  proof (intro allI impI)
    fix j assume j: "j < length (q s)"
    show "\<not> js_lt (score (agingMs s) (q s ! j) (clk k)) (score (agingMs s) (q s ! 0) (clk k))"
    proof (cases j)
      case 0
      then show ?thesis
        using assms(4) by (simp add: score_Fin)
    next
      case (Suc n)
      then have "q s ! j \<in> set rest"
        using j assms(3) by simp
      then show ?thesis
        using assms(3,6) by simp
    qed
  qed
  then have pick: "pickNextIndex (agingMs s) (clk k) (q s) = Some 0"
    using assms(3,4) by (intro pickNextIndex_head) simp_all
  show ?thesis
    using assms(1,2,3,5) pick
    by (subst pump.simps) (simp add: Let_def splice1_def pump_full)
qed

lemma step_SettleJob_fields:
  assumes "stage s i = Invoked w"
  shows "stage (step s (SettleJob i res)) = (stage s)(i := Resolved)"
    and "q (step s (SettleJob i res)) = q s"
    and "running (step s (SettleJob i res)) = running s"
    and "invoked (step s (SettleJob i res)) = invoked s"
    and "canceled (step s (SettleJob i res)) = canceled s"
  using assms by (simp_all add: Let_def split: workunit.splits result.splits)

lemma fifo_three:
  assumes "0 < a"
    and "(0 \<le> f1 0 - c2 0 \<and> f1 0 - c2 0 < a \<and> 0 \<le> f1 0 - c3 0 \<and> f1 0 - c3 0 < a)
         \<or> c2 0 \<le> c3 0"
  shows "invoked (exec (createTaskQueue \<lparr>opt_concurrency = Some 1, opt_agingMs = Some a\<rparr>)
            [Enqueue w1 p c1, Enqueue w2 p c2, Enqueue w3 p c3,
             RunJob 1, SettleJob 1 x1, FinallyJob 1 f1,
             RunJob 2, SettleJob 2 x2, FinallyJob 2 f2,
             RunJob 3]) = [1, 2, 3]"
proof -
  let ?pr = "case p of None \<Rightarrow> Priority_normal | Some v \<Rightarrow> v"
  let ?it2 = "\<lparr>id' = 2, priority = ?pr, enqueuedAt = c2 0, run = w2\<rparr>"
  let ?it3 = "\<lparr>id' = 3, priority = ?pr, enqueuedAt = c3 0, run = w3\<rparr>"
  define s3 where "s3 = exec (createTaskQueue \<lparr>opt_concurrency = Some 1, opt_agingMs = Some a\<rparr>)
                          [Enqueue w1 p c1, Enqueue w2 p c2, Enqueue w3 p c3]"
  have s3: "running s3 = 1" "concurrency s3 = 1" "agingMs s3 = a" "q s3 = [?it2, ?it3]"
    "stage s3 1 = Dispatched w1" "\<not> canceled s3 2" "\<not> canceled s3 3" "invoked s3 = []"
    unfolding s3_def
    by (simp_all add: exec_def createTaskQueue_def enqueue_def pump.simps pickNextIndex_def
          pick_loop.simps splice1_def Let_def)
  define s4 where "s4 = step s3 (RunJob 1)"
  have s4: "running s4 = 1" "concurrency s4 = 1" "agingMs s4 = a" "q s4 = [?it2, ?it3]"
    "stage s4 1 = Invoked w1" "\<not> canceled s4 2" "\<not> canceled s4 3" "invoked s4 = [1]"
    unfolding s4_def using s3 by simp_all
  define s5 where "s5 = step s4 (SettleJob 1 x1)"
  have s5: "running s5 = 1" "concurrency s5 = 1" "agingMs s5 = a" "q s5 = [?it2, ?it3]"
    "stage s5 1 = Resolved" "\<not> canceled s5 2" "\<not> canceled s5 3" "invoked s5 = [1]"
    unfolding s5_def using s4 step_SettleJob_fields [of s4 1 w1 x1]
    by (simp_all del: step.simps)
  define t5 where "t5 = s5\<lparr>running := running s5 - 1, stage := (stage s5)(1 := Done)\<rparr>"
  have mono: "\<not> js_lt (score a ?it3 (f1 0)) (score a ?it2 (f1 0))"
    using assms(2)
  proof
    assume "0 \<le> f1 0 - c2 0 \<and> f1 0 - c2 0 < a \<and> 0 \<le> f1 0 - c3 0 \<and> f1 0 - c3 0 < a"
    then have "(f1 0 - c2 0) div a = 0" "(f1 0 - c3 0) div a = 0"
      by simp_all
    then show ?thesis
      using assms(1) by (simp add: score_Fin)
  next
    assume "c2 0 \<le> c3 0"
    then show ?thesis
      using assms(1) by (intro score_mono_wait) simp_all
  qed
  have "pump f1 0 t5 = t5\<lparr>q := [?it3], running := running t5 + 1,
                           stage := (stage t5)(id' ?it2 := Dispatched (run ?it2))\<rparr>"
    using s5 mono assms(1) by (intro pump_dispatch_head) (simp_all add: t5_def)
  moreover define s6 where "s6 = step s5 (FinallyJob 1 f1)"
  ultimately have s6: "running s6 = 1" "concurrency s6 = 1" "agingMs s6 = a" "q s6 = [?it3]"
    "stage s6 2 = Dispatched w2" "\<not> canceled s6 3" "invoked s6 = [1]"
    using s5 by (simp_all add: t5_def)
  define s7 where "s7 = step s6 (RunJob 2)"
  have s7: "running s7 = 1" "concurrency s7 = 1" "agingMs s7 = a" "q s7 = [?it3]"
    "stage s7 2 = Invoked w2" "\<not> canceled s7 3" "invoked s7 = [1, 2]"
    unfolding s7_def using s6 by simp_all
  define s8 where "s8 = step s7 (SettleJob 2 x2)"
  have s8: "running s8 = 1" "concurrency s8 = 1" "agingMs s8 = a" "q s8 = [?it3]"
    "stage s8 2 = Resolved" "\<not> canceled s8 3" "invoked s8 = [1, 2]"
    unfolding s8_def using s7 step_SettleJob_fields [of s7 2 w2 x2]
    by (simp_all del: step.simps)
  define t8 where "t8 = s8\<lparr>running := running s8 - 1, stage := (stage s8)(2 := Done)\<rparr>"
  have "pump f2 0 t8 = t8\<lparr>q := [], running := running t8 + 1,
                           stage := (stage t8)(id' ?it3 := Dispatched (run ?it3))\<rparr>"
    using s8 assms(1) by (intro pump_dispatch_head) (simp_all add: t8_def)
  moreover define s9 where "s9 = step s8 (FinallyJob 2 f2)"
  ultimately have s9: "stage s9 3 = Dispatched w3" "invoked s9 = [1, 2]"
    using s8 by (simp_all add: t8_def)
  have "invoked (step s9 (RunJob 3)) = [1, 2, 3]"
    using s9 by simp
  then show ?thesis
    by (simp add: s9_def s8_def s7_def s6_def s5_def s4_def s3_def exec_def del: step.simps)
qed

text \<open>
  C4. For an aging window \<open>a > 0\<close>: on the empty queue the selector returns none (\<open>-1\<close>);
  on a non-empty queue it returns an index whose score at \<open>now\<close> is minimal over all
  entries, and every entry before that index has a strictly greater score, so among the
  entries of minimal score it is the first in the array. The array is kept in the order of
  insertion (ids ascending). Consequently, with one slot, three tasks of the same priority
  that are submitted before the first completes are called in the order of submission,
  when no aging has elapsed for the two queued ones at the moment the slot is free (or,
  more generally, when the clock did not go back between their submissions).
\<close>

theorem selector_first_minimum:
  assumes "0 < a"
  shows "pickNextIndex a now [] = None
         \<and> (xs \<noteq> [] \<longrightarrow>
              (\<exists>idx. pickNextIndex a now xs = Some idx \<and> idx < length xs
                 \<and> (\<forall>j<length xs. \<exists>m v.
                        score a (xs ! idx) now = Fin m \<and> score a (xs ! j) now = Fin v
                        \<and> m \<le> v \<and> (j < idx \<longrightarrow> m < v))))
         \<and> sorted_wrt (<) (map id' (q (exec (createTaskQueue opts) es)))
         \<and> ((0 \<le> f1 0 - c2 0 \<and> f1 0 - c2 0 < a \<and> 0 \<le> f1 0 - c3 0 \<and> f1 0 - c3 0 < a)
              \<or> c2 0 \<le> c3 0 \<longrightarrow>
             invoked (exec (createTaskQueue \<lparr>opt_concurrency = Some 1, opt_agingMs = Some a\<rparr>)
               [Enqueue w1 p c1, Enqueue w2 p c2, Enqueue w3 p c3,
                RunJob 1, SettleJob 1 x1, FinallyJob 1 f1,
                RunJob 2, SettleJob 2 x2, FinallyJob 2 f2,
                RunJob 3]) = [1, 2, 3])"
proof -
  have nz: "a \<noteq> 0"
    using assms by simp
  have e: "pickNextIndex a now [] = None"
    by (simp add: pickNextIndex_def)
  have m: "xs \<noteq> [] \<longrightarrow>
              (\<exists>idx. pickNextIndex a now xs = Some idx \<and> idx < length xs
                 \<and> (\<forall>j<length xs. \<exists>m v.
                        score a (xs ! idx) now = Fin m \<and> score a (xs ! j) now = Fin v
                        \<and> m \<le> v \<and> (j < idx \<longrightarrow> m < v)))"
  proof
    assume "xs \<noteq> []"
    then obtain idx where idx: "pickNextIndex a now xs = Some idx" "idx < length xs"
      and least: "\<forall>j<length xs. \<not> js_lt (score a (xs ! j) now) (score a (xs ! idx) now)"
      and first: "\<forall>j<idx. js_lt (score a (xs ! idx) now) (score a (xs ! j) now)"
      using pickNextIndex_first_min [OF nz, of xs now] by blast
    have "\<forall>j<length xs. \<exists>m v.
            score a (xs ! idx) now = Fin m \<and> score a (xs ! j) now = Fin v
            \<and> m \<le> v \<and> (j < idx \<longrightarrow> m < v)"
    proof (intro allI impI)
      fix j assume j: "j < length xs"
      have "\<not> js_lt (score a (xs ! j) now) (score a (xs ! idx) now)"
        using least j by blast
      moreover have "j < idx \<longrightarrow> js_lt (score a (xs ! idx) now) (score a (xs ! j) now)"
        using first by blast
      moreover obtain m v where "score a (xs ! idx) now = Fin m" "score a (xs ! j) now = Fin v"
        using nz score_Fin by blast
      ultimately show "\<exists>m v. score a (xs ! idx) now = Fin m \<and> score a (xs ! j) now = Fin v
            \<and> m \<le> v \<and> (j < idx \<longrightarrow> m < v)"
        by auto
    qed
    with idx show "\<exists>idx. pickNextIndex a now xs = Some idx \<and> idx < length xs
                 \<and> (\<forall>j<length xs. \<exists>m v.
                        score a (xs ! idx) now = Fin m \<and> score a (xs ! j) now = Fin v
                        \<and> m \<le> v \<and> (j < idx \<longrightarrow> m < v))"
      by blast
  qed
  have "queue_inv (exec (createTaskQueue opts) es)"
    using queue_inv_create by (rule queue_inv_exec)
  then have o: "sorted_wrt (<) (map id' (q (exec (createTaskQueue opts) es)))"
    by (simp add: queue_inv_def)
  have f: "(0 \<le> f1 0 - c2 0 \<and> f1 0 - c2 0 < a \<and> 0 \<le> f1 0 - c3 0 \<and> f1 0 - c3 0 < a)
              \<or> c2 0 \<le> c3 0 \<longrightarrow>
             invoked (exec (createTaskQueue \<lparr>opt_concurrency = Some 1, opt_agingMs = Some a\<rparr>)
               [Enqueue w1 p c1, Enqueue w2 p c2, Enqueue w3 p c3,
                RunJob 1, SettleJob 1 x1, FinallyJob 1 f1,
                RunJob 2, SettleJob 2 x2, FinallyJob 2 f2,
                RunJob 3]) = [1, 2, 3]"
    using assms by (blast intro: fifo_three)
  show ?thesis
    using e m o f by blast
qed

theorem selector_first_minimum_witness:
  "(0::int) < 200
   \<and> [\<lparr>id' = 1, priority = 2, enqueuedAt = 0, run = Callable\<rparr>,
       \<lparr>id' = 2, priority = 0, enqueuedAt = 100, run = Callable\<rparr>,
       \<lparr>id' = 3, priority = 0, enqueuedAt = 150, run = Callable\<rparr>] \<noteq> []
   \<and> pickNextIndex 200 150
        [\<lparr>id' = 1, priority = 2, enqueuedAt = 0, run = Callable\<rparr>,
         \<lparr>id' = 2, priority = 0, enqueuedAt = 100, run = Callable\<rparr>,
         \<lparr>id' = 3, priority = 0, enqueuedAt = 150, run = Callable\<rparr>] = Some 1
   \<and> (0::int) \<le> 50 - 10 \<and> (50::int) - 10 < 200 \<and> (0::int) \<le> 50 - 20 \<and> (50::int) - 20 < 200
   \<and> invoked (exec (createTaskQueue \<lparr>opt_concurrency = Some 1, opt_agingMs = Some 200\<rparr>)
        [Enqueue Callable (Some 2) (\<lambda>_. 0), Enqueue Callable (Some 2) (\<lambda>_. 10),
         Enqueue Callable (Some 2) (\<lambda>_. 20),
         RunJob 1, SettleJob 1 (Returned ''a''), FinallyJob 1 (\<lambda>_. 50),
         RunJob 2, SettleJob 2 (Returned ''b''), FinallyJob 2 (\<lambda>_. 90),
         RunJob 3]) = [1, 2, 3]"
  using selector_first_minimum [of 200 150
      "[\<lparr>id' = 1, priority = 2, enqueuedAt = 0, run = Callable\<rparr>,
        \<lparr>id' = 2, priority = 0, enqueuedAt = 100, run = Callable\<rparr>,
        \<lparr>id' = 3, priority = 0, enqueuedAt = 150, run = Callable\<rparr>]"
      "\<lparr>opt_concurrency = Some 1, opt_agingMs = Some 200\<rparr>" "[]"
      "\<lambda>_. 50" "\<lambda>_. 10" "\<lambda>_. 20" Callable "Some 2" "\<lambda>_. 0" Callable Callable
      "Returned ''a''" "Returned ''b''" "\<lambda>_. 90"]
  by (simp add: run_simps)


end
